theory Spec2Isabelle
  imports Complex_Main "HOL-Library.Word"
begin

section \<open>Values of the host language\<close>

text \<open>
  The source is \<^verbatim>\<open>packages/bignumber/src.ts/bignumber.ts\<close>. Every \<^verbatim>\<open>throw\<close> of the
  source is a value of type \<open>error\<close>: \<open>InvalidArgument\<close> carries the message given to
  \<^verbatim>\<open>errors.throwArgumentError\<close>, \<open>NumericFault\<close> the fault and the operation given to
  \<^verbatim>\<open>throwFault\<close>. \<open>TypeError\<close> is the host's own error when a property of \<^verbatim>\<open>null\<close>
  or \<^verbatim>\<open>undefined\<close> is read, \<open>EngineError\<close> an exception raised inside the big-integer
  engine.
\<close>

datatype error =
    InvalidArgument string
  | NumericFault string string
  | TypeError
  | EngineError

text \<open>The class \<^verbatim>\<open>BigNumber\<close>: its only data is the field \<^verbatim>\<open>_hex\<close>.\<close>

record BigNumber =
  hex :: string

text \<open>
  A native number is a finite value, \<^verbatim>\<open>NaN\<close> or an infinity. Finite doubles are
  rationals; the model admits every rational.
\<close>

datatype jsnumber = Finite rat | NaN | PosInfinity | NegInfinity

text \<open>
  What \<^verbatim>\<open>BigNumber.from\<close> probes on an object that is not an instance of \<^verbatim>\<open>BigNumber\<close>:
  whether it is a byte sequence (\<open>elements\<close> is \<open>Some\<close> of its bytes when \<^verbatim>\<open>isBytes\<close> holds
  of it, as for an array of bytes that carries further fields), the field \<^verbatim>\<open>_hex\<close>
  (\<open>None\<close> when absent or not a string), the function \<^verbatim>\<open>toHexString\<close> with what it
  returns, and the field \<^verbatim>\<open>_isBigNumber\<close>. \<open>VBytes\<close> is a byte sequence with none of these
  fields.
\<close>

datatype hex_result = Absent | ReturnsString string | ReturnsOther

record jsobject =
  elements :: "8 word list option"
  field_hex :: "string option"
  call_toHexString :: hex_result
  field_isBigNumber :: bool

datatype jsvalue =
    VNull
  | VBigNumber BigNumber
  | VString string
  | VNumber jsnumber
  | VBigInt int
  | VBytes "8 word list"
  | VObject jsobject

section \<open>Regular expressions of the source\<close>

definition is_digit :: "char \<Rightarrow> bool" where
  \<comment> \<open>the class \<^verbatim>\<open>[0-9]\<close>\<close>
  "is_digit c = (48 \<le> (of_char c :: nat) \<and> (of_char c :: nat) \<le> 57)"

definition is_hex_lower :: "char \<Rightarrow> bool" where
  \<comment> \<open>the class \<^verbatim>\<open>[0-9a-f]\<close>\<close>
  "is_hex_lower c = (is_digit c \<or> (97 \<le> (of_char c :: nat) \<and> (of_char c :: nat) \<le> 102))"

definition is_hex_any :: "char \<Rightarrow> bool" where
  \<comment> \<open>the class \<^verbatim>\<open>[0-9a-f]\<close> under the flag \<^verbatim>\<open>i\<close>, that is \<^verbatim>\<open>[0-9A-Fa-f]\<close>\<close>
  "is_hex_any c = (is_hex_lower c \<or> (65 \<le> (of_char c :: nat) \<and> (of_char c :: nat) \<le> 70))"

definition match_decimal :: "string \<Rightarrow> bool" where
  \<comment> \<open>\<^verbatim>\<open>value.match(/^-?[0-9]+$/)\<close>\<close>
  "match_decimal value =
     (let r = (if take 1 value = ''-'' then drop 1 value else value)
      in r \<noteq> [] \<and> list_all is_digit r)"

fun match_hex :: "string \<Rightarrow> bool" where
  \<comment> \<open>\<^verbatim>\<open>value.match(/-?0x[0-9a-f]+/i)\<close>: the pattern has no anchors, so it is searched
      for at every position, and the flag \<^verbatim>\<open>i\<close> also lets \<^verbatim>\<open>X\<close> stand for \<^verbatim>\<open>x\<close>\<close>
  "match_hex (a # b # c # rest) =
     ((a = CHR ''0'' \<and> (b = CHR ''x'' \<or> b = CHR ''X'') \<and> is_hex_any c)
      \<or> match_hex (b # c # rest))"
| "match_hex _ = False"

section \<open>The big-integer engine\<close>

text \<open>
  Modelled from the spec: the big-integer engine (the library \<^verbatim>\<open>bn.js\<close>) is an external
  collaborator and not part of the source. Its values are the mathematical integers.
  Radix-parse reads an optional minus sign and then digits of the radix, hexadecimal
  letters in either case; a string with any other character has no value. Radix-render
  writes lowercase digits without leading zeros, and a minus sign for a negative value.
\<close>

definition digit_value :: "char \<Rightarrow> nat option" where
  "digit_value c =
     (let n = (of_char c :: nat) in
      if 48 \<le> n \<and> n \<le> 57 then Some (n - 48)
      else if 97 \<le> n \<and> n \<le> 102 then Some (n - 87)
      else if 65 \<le> n \<and> n \<le> 70 then Some (n - 55)
      else None)"

definition digit_char :: "nat \<Rightarrow> char" where
  "digit_char d = (if d < 10 then char_of (48 + d) else char_of (87 + d))"

fun parse_digits :: "nat \<Rightarrow> nat \<Rightarrow> string \<Rightarrow> nat option" where
  "parse_digits base acc [] = Some acc"
| "parse_digits base acc (c # cs) =
     (case digit_value c of
        None \<Rightarrow> None
      | Some d \<Rightarrow> if d < base then parse_digits base (acc * base + d) cs else None)"

function render_digits :: "nat \<Rightarrow> nat \<Rightarrow> string" where
  "render_digits base n =
     (if n < base \<or> base < 2 then [digit_char n]
      else render_digits base (n div base) @ [digit_char (n mod base)])"
  by pat_completeness auto
termination
  by (relation "measure snd") auto

declare render_digits.simps [simp del]

definition BN_new :: "string \<Rightarrow> nat \<Rightarrow> error + int" where
  \<comment> \<open>\<^verbatim>\<open>new BN.BN(number, base)\<close>\<close>
  "BN_new number base =
     (if take 1 number = ''-''
      then (case parse_digits base 0 (drop 1 number) of
              None \<Rightarrow> Inl EngineError
            | Some n \<Rightarrow> Inr (- int n))
      else (case parse_digits base 0 number of
              None \<Rightarrow> Inl EngineError
            | Some n \<Rightarrow> Inr (int n)))"

definition BN_toString :: "int \<Rightarrow> nat \<Rightarrow> string" where
  \<comment> \<open>\<^verbatim>\<open>bn.toString(base)\<close>\<close>
  "BN_toString n base =
     (if n < 0 then ''-'' @ render_digits base (nat (- n)) else render_digits base (nat n))"

section \<open>The byte utilities\<close>

text \<open>
  Modelled from the spec: \<^verbatim>\<open>isHexString\<close>, \<^verbatim>\<open>isBytes\<close> and \<^verbatim>\<open>hexlify\<close> of the package
  \<^verbatim>\<open>@ethersproject/bytes\<close> are not part of the source. A valid hex string is \<^verbatim>\<open>0x\<close>
  followed by hexadecimal digits in either case, without a sign; a byte sequence is an
  array of bytes, with or without further fields, and is converted to \<^verbatim>\<open>0x\<close> and two
  lowercase hexadecimal digits per byte.
\<close>

definition isHexString :: "string \<Rightarrow> bool" where
  "isHexString value = (take 2 value = ''0x'' \<and> list_all is_hex_any (drop 2 value))"

definition isBytes :: "jsvalue \<Rightarrow> bool" where
  "isBytes value =
     (case value of VBytes _ \<Rightarrow> True | VObject ob \<Rightarrow> elements ob \<noteq> None | _ \<Rightarrow> False)"

fun hexlify :: "8 word list \<Rightarrow> string" where
  "hexlify bytes =
     ''0x'' @ concat (map (\<lambda>b. [digit_char (unat b div 16), digit_char (unat b mod 16)]) bytes)"

section \<open>The canonical encoder\<close>

text \<open>
  The loop at the end of \<^verbatim>\<open>toHex\<close>:
  \<^verbatim>\<open>while (value.length > 4 && value.substring(0, 4) === "0x00") { value = "0x" + value.substring(4); }\<close>
\<close>

function trim :: "string \<Rightarrow> string" where
  "trim value =
     (if length value > 4 \<and> take 4 value = ''0x00''
      then trim (''0x'' @ drop 4 value)
      else value)"
  by pat_completeness auto
termination
  by (relation "measure length") auto

declare trim.simps [simp del]

text \<open>\<^verbatim>\<open>toHex\<close> on a string.\<close>

function toHex :: "string \<Rightarrow> error + string" where
  "toHex value =
     (if take 1 value = ''-'' then
        (let value = drop 1 value in
         if take 1 value = ''-'' then Inl (InvalidArgument ''invalid hex'')
         else (case toHex value of
                 Inl e \<Rightarrow> Inl e
               | Inr value \<Rightarrow> if value = ''0x00'' then Inr value else Inr (''-'' @ value)))
      else
        (let value = (if take 2 value \<noteq> ''0x'' then ''0x'' @ value else value) in
         if value = ''0x'' then Inr ''0x00''
         else
           (let value = (if length value mod 2 \<noteq> 0 then ''0x0'' @ drop 2 value else value)
            in Inr (trim value))))"
  by pat_completeness auto
termination
proof (relation "measure length")
  show "wf (measure length)" by simp
next
  fix v w :: string
  assume "take 1 v = ''-''" and "w = drop 1 v"
  then have "v \<noteq> []" by auto
  with \<open>w = drop 1 v\<close> show "(w, v) \<in> measure length" by simp
qed

declare toHex.simps [simp del]

text \<open>\<^verbatim>\<open>toHex\<close> on an engine value: \<^verbatim>\<open>toHex(value.toString(16))\<close>.\<close>

definition toHex_BN :: "int \<Rightarrow> error + string" where
  "toHex_BN value = toHex (BN_toString value 16)"

section \<open>The value type\<close>

definition MAX_SAFE :: rat where
  "MAX_SAFE = 9007199254740991"

definition mod1_truthy :: "jsnumber \<Rightarrow> bool" where
  \<comment> \<open>the truth value of \<^verbatim>\<open>value % 1\<close>: \<^verbatim>\<open>NaN\<close>, the remainder of \<^verbatim>\<open>NaN\<close> and of the
      infinities, is falsy\<close>
  "mod1_truthy value = (case value of Finite x \<Rightarrow> x \<noteq> of_int \<lfloor>x\<rfloor> | _ \<Rightarrow> False)"

definition number_ge :: "jsnumber \<Rightarrow> rat \<Rightarrow> bool" where
  "number_ge value m =
     (case value of Finite x \<Rightarrow> m \<le> x | PosInfinity \<Rightarrow> True | _ \<Rightarrow> False)"

definition number_le :: "jsnumber \<Rightarrow> rat \<Rightarrow> bool" where
  "number_le value m =
     (case value of Finite x \<Rightarrow> x \<le> m | NegInfinity \<Rightarrow> True | _ \<Rightarrow> False)"

definition int_toString :: "int \<Rightarrow> string" where
  \<comment> \<open>the host's decimal rendering of an integer\<close>
  "int_toString n =
     (if n < 0 then ''-'' @ render_digits 10 (nat (- n)) else render_digits 10 (nat n))"

definition String_number :: "jsnumber \<Rightarrow> string" where
  \<comment> \<open>\<^verbatim>\<open>String(value)\<close>; \<^verbatim>\<open>BigNumber.from\<close> calls it on integral values below
      \<^verbatim>\<open>MAX_SAFE\<close> in magnitude and on \<^verbatim>\<open>NaN\<close> only\<close>
  "String_number value =
     (case value of
        Finite x \<Rightarrow> int_toString \<lfloor>x\<rfloor>
      | NaN \<Rightarrow> ''NaN''
      | PosInfinity \<Rightarrow> ''Infinity''
      | NegInfinity \<Rightarrow> ''-Infinity'')"

definition new_BigNumber :: "string \<Rightarrow> BigNumber" where
  \<comment> \<open>\<^verbatim>\<open>new BigNumber(_constructorGuard, hex)\<close>\<close>
  "new_BigNumber h = \<lparr>hex = h\<rparr>"

function BigNumber_from :: "jsvalue \<Rightarrow> error + BigNumber" where
  "BigNumber_from (VBigNumber value) = Inr value"
| "BigNumber_from (VString value) =
     (if match_hex value then
        (case toHex value of Inl e \<Rightarrow> Inl e | Inr h \<Rightarrow> Inr (new_BigNumber h))
      else if match_decimal value then
        (case BN_new value 10 of
           Inl e \<Rightarrow> Inl e
         | Inr n \<Rightarrow> (case toHex_BN n of Inl e \<Rightarrow> Inl e | Inr h \<Rightarrow> Inr (new_BigNumber h)))
      else Inl (InvalidArgument ''invalid BigNumber string''))"
| "BigNumber_from (VNumber value) =
     (if mod1_truthy value then Inl (NumericFault ''underflow'' ''BigNumber.from'')
      else if number_ge value MAX_SAFE \<or> number_le value (- MAX_SAFE)
      then Inl (NumericFault ''overflow'' ''BigNumber.from'')
      else BigNumber_from (VString (String_number value)))"
| "BigNumber_from (VBigInt value) = BigNumber_from (VString (int_toString value))"
| "BigNumber_from (VBytes value) = BigNumber_from (VString (hexlify value))"
| "BigNumber_from (VObject value) =
     (if isBytes (VObject value) then BigNumber_from (VString (hexlify (the (elements value))))
      else if (case field_hex value of None \<Rightarrow> False | Some h \<Rightarrow> h \<noteq> [] \<and> isHexString h)
      then BigNumber_from (VString (the (field_hex value)))
      else (case call_toHexString value of
              ReturnsString s \<Rightarrow> BigNumber_from (VString s)
            | _ \<Rightarrow> Inl (InvalidArgument ''invalid BigNumber value'')))"
| "BigNumber_from VNull = Inl TypeError"
  by pat_completeness auto
termination
  by (relation "measure (\<lambda>v. case v of VString _ \<Rightarrow> 0 | _ \<Rightarrow> Suc 0)") auto

declare BigNumber_from.simps [simp del]

definition toHexString :: "BigNumber \<Rightarrow> string" where
  "toHexString this = hex this"

definition isBigNumber :: "jsvalue \<Rightarrow> bool" where
  \<comment> \<open>\<^verbatim>\<open>!!(value && value._isBigNumber)\<close>\<close>
  "isBigNumber value =
     (case value of VBigNumber _ \<Rightarrow> True | VObject ob \<Rightarrow> field_isBigNumber ob | _ \<Rightarrow> False)"

definition isBigNumberish :: "jsvalue \<Rightarrow> bool" where
  "isBigNumberish value =
     (value \<noteq> VNull \<and>
      (isBigNumber value
       \<or> (case value of VNumber (Finite x) \<Rightarrow> x = of_int \<lfloor>x\<rfloor> | _ \<Rightarrow> False)
       \<or> (case value of VString s \<Rightarrow> match_decimal s | _ \<Rightarrow> False)
       \<or> (case value of VString s \<Rightarrow> isHexString s | _ \<Rightarrow> False)
       \<or> (case value of VBigInt _ \<Rightarrow> True | _ \<Rightarrow> False)
       \<or> isBytes value))"

definition toBN :: "jsvalue \<Rightarrow> error + int" where
  "toBN value =
     (case BigNumber_from value of
        Inl e \<Rightarrow> Inl e
      | Inr b \<Rightarrow>
          (let h = toHexString b in
           if take 1 h = ''-'' then BN_new (''-'' @ drop 3 h) 16
           else BN_new (drop 2 h) 16))"

definition toBigNumber :: "int \<Rightarrow> error + BigNumber" where
  "toBigNumber value =
     (case toHex_BN value of Inl e \<Rightarrow> Inl e | Inr h \<Rightarrow> BigNumber_from (VString h))"

text \<open>
  The arithmetic of the engine is a parameter of each operation: a function of the
  decoded operands that returns the engine's result, or \<open>None\<close> when the engine throws.
\<close>

definition binary_op ::
  "(int \<Rightarrow> int \<Rightarrow> int option) \<Rightarrow> BigNumber \<Rightarrow> jsvalue \<Rightarrow> error + BigNumber" where
  \<comment> \<open>\<^verbatim>\<open>toBigNumber(toBN(this).op(toBN(other)))\<close>\<close>
  "binary_op bn_op this other =
     (case toBN (VBigNumber this) of
        Inl e \<Rightarrow> Inl e
      | Inr a \<Rightarrow>
          (case toBN other of
             Inl e \<Rightarrow> Inl e
           | Inr b \<Rightarrow>
               (case bn_op a b of None \<Rightarrow> Inl EngineError | Some r \<Rightarrow> toBigNumber r)))"






definition add ::
  "(int \<Rightarrow> int \<Rightarrow> int option) \<Rightarrow> BigNumber \<Rightarrow> jsvalue \<Rightarrow> error + BigNumber" where
  "add bn_add this other = binary_op bn_add this other"

definition sub ::
  "(int \<Rightarrow> int \<Rightarrow> int option) \<Rightarrow> BigNumber \<Rightarrow> jsvalue \<Rightarrow> error + BigNumber" where
  "sub bn_sub this other = binary_op bn_sub this other"




definition isZero :: "BigNumber \<Rightarrow> error + bool" where
  \<comment> \<open>\<^verbatim>\<open>toBN(this).isZero()\<close>\<close>
  "isZero this = (case toBN (VBigNumber this) of Inl e \<Rightarrow> Inl e | Inr a \<Rightarrow> Inr (a = 0))"

definition div_BigNumber ::
  "(int \<Rightarrow> int \<Rightarrow> int option) \<Rightarrow> BigNumber \<Rightarrow> jsvalue \<Rightarrow> error + BigNumber" where
  \<comment> \<open>\<^verbatim>\<open>div\<close>\<close>
  "div_BigNumber bn_div this other =
     (case BigNumber_from other of
        Inl e \<Rightarrow> Inl e
      | Inr ob \<Rightarrow>
          (case isZero ob of
             Inl e \<Rightarrow> Inl e
           | Inr z \<Rightarrow>
               if z then Inl (NumericFault ''division by zero'' ''div'')
               else binary_op bn_div this other))"

definition compare ::
  "(int \<Rightarrow> int \<Rightarrow> bool) \<Rightarrow> BigNumber \<Rightarrow> jsvalue \<Rightarrow> error + bool" where
  \<comment> \<open>\<^verbatim>\<open>toBN(this).cmp(toBN(other))\<close> for the comparison \<open>cmp\<close> of two integers\<close>
  "compare cmp this other =
     (case toBN (VBigNumber this) of
        Inl e \<Rightarrow> Inl e
      | Inr a \<Rightarrow> (case toBN other of Inl e \<Rightarrow> Inl e | Inr b \<Rightarrow> Inr (cmp a b)))"

definition eq :: "BigNumber \<Rightarrow> jsvalue \<Rightarrow> error + bool" where
  "eq this other = compare (=) this other"

definition lt :: "BigNumber \<Rightarrow> jsvalue \<Rightarrow> error + bool" where
  "lt this other = compare (<) this other"

definition lte :: "BigNumber \<Rightarrow> jsvalue \<Rightarrow> error + bool" where
  "lte this other = compare (\<le>) this other"

definition gt :: "BigNumber \<Rightarrow> jsvalue \<Rightarrow> error + bool" where
  "gt this other = compare (>) this other"

definition gte :: "BigNumber \<Rightarrow> jsvalue \<Rightarrow> error + bool" where
  "gte this other = compare (\<ge>) this other"

definition toString :: "BigNumber \<Rightarrow> error + string" where
  \<comment> \<open>\<^verbatim>\<open>toBN(this).toString(10)\<close>, called without arguments\<close>
  "toString this =
     (case toBN (VBigNumber this) of Inl e \<Rightarrow> Inl e | Inr a \<Rightarrow> Inr (BN_toString a 10))"

section \<open>Notions used in the proofs\<close>

text \<open>
  The digits that follow the prefix \<^verbatim>\<open>0x\<close> in the argument of \<^verbatim>\<open>toHex\<close> (the whole
  argument when it has no prefix), the padding to an even length, the removal of leading
  \<^verbatim>\<open>00\<close> pairs, and the digits \<^verbatim>\<open>toHex\<close> returns after the prefix.
\<close>

definition payload :: "string \<Rightarrow> string" where
  "payload v = (if take 2 v = ''0x'' then drop 2 v else v)"

definition pad :: "string \<Rightarrow> string" where
  "pad ds = (if length ds mod 2 \<noteq> 0 then CHR ''0'' # ds else ds)"

function strip_pairs :: "string \<Rightarrow> string" where
  "strip_pairs ds =
     (if length ds > 2 \<and> take 2 ds = ''00'' then strip_pairs (drop 2 ds) else ds)"
  by pat_completeness auto
termination
  by (relation "measure length") auto

declare strip_pairs.simps [simp del]

definition normal_digits :: "string \<Rightarrow> string" where
  "normal_digits p = (if p = [] then ''00'' else strip_pairs (pad p))"

definition minimal_even :: "string \<Rightarrow> bool" where
  "minimal_even ds = (ds \<noteq> [] \<and> even (length ds) \<and> (length ds \<le> 2 \<or> take 2 ds \<noteq> ''00''))"

definition is_InvalidArgument :: "error + BigNumber \<Rightarrow> bool" where
  "is_InvalidArgument r = (case r of Inl (InvalidArgument _) \<Rightarrow> True | _ \<Rightarrow> False)"

definition empty_object :: jsobject where
  \<comment> \<open>the object \<^verbatim>\<open>{}\<close>\<close>
  "empty_object =
     \<lparr>elements = None, field_hex = None, call_toHexString = Absent, field_isBigNumber = False\<rparr>"

definition is_base_digit :: "nat \<Rightarrow> char \<Rightarrow> bool" where
  "is_base_digit base c =
     (case digit_value c of None \<Rightarrow> False | Some d \<Rightarrow> d < base \<and> digit_char d = c)"

definition strip_zeros :: "string \<Rightarrow> string" where
  "strip_zeros ds = (case dropWhile (\<lambda>c. c = CHR ''0'') ds of [] \<Rightarrow> ''0'' | c # cs \<Rightarrow> c # cs)"

definition enc_nat :: "nat \<Rightarrow> string" where
  "enc_nat n = CHR ''0'' # CHR ''x'' # pad (render_digits 16 n)"

definition enc :: "int \<Rightarrow> string" where
  "enc n = (if n < 0 then CHR ''-'' # enc_nat (nat (- n)) else enc_nat (nat n))"

definition strip_decimal :: "string \<Rightarrow> string" where
  "strip_decimal d =
     (if take 1 d = ''-'' then CHR ''-'' # strip_zeros (drop 1 d) else strip_zeros d)"

text \<open>
  The constructor of \<^verbatim>\<open>BigNumber\<close> is guarded, so an instance exists only as the
  result of \<^verbatim>\<open>BigNumber.from\<close> on a value that is not an instance itself.
\<close>

inductive constructed :: "BigNumber \<Rightarrow> bool" where
  fresh: "BigNumber_from v = Inr b \<Longrightarrow> \<forall>b'. v \<noteq> VBigNumber b' \<Longrightarrow> constructed b"

definition canonical_with :: "(char \<Rightarrow> bool) \<Rightarrow> string \<Rightarrow> bool" where
  "canonical_with P h =
     (if take 1 h = ''-''
      then take 2 (drop 1 h) = ''0x'' \<and> minimal_even (drop 3 h) \<and> list_all P (drop 3 h)
           \<and> drop 3 h \<noteq> ''00''
      else take 2 h = ''0x'' \<and> minimal_even (drop 2 h) \<and> list_all P (drop 2 h))"

definition canonical :: "string \<Rightarrow> bool" where
  "canonical h = canonical_with is_hex_lower h"

definition full_hex :: "(char \<Rightarrow> bool) \<Rightarrow> string \<Rightarrow> bool" where
  "full_hex P s =
     (let r = (if take 1 s = ''-'' then drop 1 s else s)
      in take 2 r = ''0x'' \<and> drop 2 r \<noteq> [] \<and> list_all P (drop 2 r))"

definition plain_string :: "(char \<Rightarrow> bool) \<Rightarrow> string \<Rightarrow> bool" where
  "plain_string P s = (match_hex s \<longrightarrow> full_hex P s)"

definition plain_input :: "(char \<Rightarrow> bool) \<Rightarrow> jsvalue \<Rightarrow> bool" where
  "plain_input P v =
     (case v of
        VBigNumber b \<Rightarrow> canonical_with P (hex b)
      | VString s \<Rightarrow> plain_string P s
      | VObject ob \<Rightarrow>
          (if isBytes (VObject ob) then True
           else if (case field_hex ob of None \<Rightarrow> False | Some h \<Rightarrow> h \<noteq> [] \<and> isHexString h)
           then plain_string P (the (field_hex ob))
           else (case call_toHexString ob of ReturnsString s \<Rightarrow> plain_string P s | _ \<Rightarrow> True))
      | _ \<Rightarrow> True)"

text \<open>The host's \<^verbatim>\<open>toLowerCase\<close> on the letters \<^verbatim>\<open>A\<close> to \<^verbatim>\<open>Z\<close>.\<close>

definition lower_char :: "char \<Rightarrow> char" where
  "lower_char c =
     (if 65 \<le> (of_char c :: nat) \<and> (of_char c :: nat) \<le> 90
      then char_of ((of_char c :: nat) + 32) else c)"

definition toLowerCase :: "string \<Rightarrow> string" where
  "toLowerCase s = map lower_char s"

section \<open>The encoder in closed form\<close>

lemma pad_alt: "pad ds = (if odd (length ds) then CHR ''0'' # ds else ds)"
  by (simp add: pad_def even_iff_mod_2_eq_zero)

lemma odd_length_mod: "(length (ds :: string) mod 2 \<noteq> 0) = odd (length ds)"
  by (simp add: even_iff_mod_2_eq_zero)

lemma trim_0x: "trim (CHR ''0'' # CHR ''x'' # ds) = CHR ''0'' # CHR ''x'' # strip_pairs ds"
proof (induction ds rule: strip_pairs.induct)
  case (1 ds)
  show ?case
  proof (cases "length ds > 2 \<and> take 2 ds = ''00''")
    case True
    then have a: "length (''0x'' @ ds) > 4 \<and> take 4 (''0x'' @ ds) = ''0x00''" by simp
    have b: "drop 4 (''0x'' @ ds) = drop 2 ds" by simp
    from a have "trim (''0x'' @ ds) = trim (''0x'' @ drop 4 (''0x'' @ ds))"
      by (subst trim.simps) simp
    also have "\<dots> = ''0x'' @ strip_pairs (drop 2 ds)" using 1 True b by simp
    also have "strip_pairs (drop 2 ds) = strip_pairs ds" using True by (subst (2) strip_pairs.simps) simp
    finally show ?thesis by simp
  next
    case False
    then have "\<not> (length (''0x'' @ ds) > 4 \<and> take 4 (''0x'' @ ds) = ''0x00'')" by auto
    then have "trim (''0x'' @ ds) = ''0x'' @ ds" by (subst trim.simps) (simp only: if_False)
    moreover have "strip_pairs ds = ds" using False by (subst strip_pairs.simps) auto
    ultimately show ?thesis by simp
  qed
qed

lemma strip_pairs_minimal: "ds \<noteq> [] \<Longrightarrow> even (length ds) \<Longrightarrow> minimal_even (strip_pairs ds)"
proof (induction ds rule: strip_pairs.induct)
  case (1 ds)
  show ?case
  proof (cases "length ds > 2 \<and> take 2 ds = ''00''")
    case True
    then have "strip_pairs ds = strip_pairs (drop 2 ds)" by (subst strip_pairs.simps) simp
    moreover have "minimal_even (strip_pairs (drop 2 ds))"
      using 1 True by auto
    ultimately show ?thesis by simp
  next
    case False
    then have "strip_pairs ds = ds" by (subst strip_pairs.simps) auto
    then show ?thesis using False 1(2,3) by (auto simp: minimal_even_def)
  qed
qed

lemma strip_pairs_fix: "minimal_even ds \<Longrightarrow> strip_pairs ds = ds"
  by (subst strip_pairs.simps) (auto simp: minimal_even_def)

lemma strip_pairs_set: "set (strip_pairs ds) \<subseteq> set ds"
proof (induction ds rule: strip_pairs.induct)
  case (1 ds)
  show ?case
  proof (cases "length ds > 2 \<and> take 2 ds = ''00''")
    case True
    then have "strip_pairs ds = strip_pairs (drop 2 ds)" by (subst strip_pairs.simps) simp
    moreover have "set (strip_pairs (drop 2 ds)) \<subseteq> set (drop 2 ds)" using 1 True by simp
    moreover have "set (drop 2 ds) \<subseteq> set ds" by (rule set_drop_subset)
    ultimately show ?thesis by auto
  next
    case False
    then have "strip_pairs ds = ds" by (subst strip_pairs.simps) auto
    then show ?thesis by simp
  qed
qed

lemma normal_digits_minimal: "minimal_even (normal_digits p)"
proof (cases "p = []")
  case True
  then show ?thesis by (simp add: normal_digits_def minimal_even_def)
next
  case False
  then have "pad p \<noteq> []" "even (length (pad p))"
    by (auto simp: pad_alt)
  then show ?thesis using False by (simp add: normal_digits_def strip_pairs_minimal)
qed

lemma normal_digits_fix: "minimal_even ds \<Longrightarrow> normal_digits ds = ds"
  by (auto simp: normal_digits_def pad_alt strip_pairs_fix minimal_even_def)

lemma normal_digits_set: "set (normal_digits p) \<subseteq> insert CHR ''0'' (set p)"
proof (cases "p = []")
  case True
  then show ?thesis by (simp add: normal_digits_def)
next
  case False
  have "set (strip_pairs (pad p)) \<subseteq> set (pad p)" by (rule strip_pairs_set)
  moreover have "set (pad p) \<subseteq> insert CHR ''0'' (set p)" by (auto simp: pad_alt)
  ultimately show ?thesis using False by (auto simp: normal_digits_def)
qed

lemma take2_iff: "take 2 v = [a, b] \<longleftrightarrow> (\<exists>p. v = a # b # p)"
  by (cases v; cases "tl v") auto

lemma toHex_0x:
  "toHex (CHR ''0'' # CHR ''x'' # p) = Inr (CHR ''0'' # CHR ''x'' # normal_digits p)"
proof (cases "p = []")
  case True
  then show ?thesis by (subst toHex.simps) (simp add: normal_digits_def)
next
  case False
  have "toHex (CHR ''0'' # CHR ''x'' # p) = Inr (trim (CHR ''0'' # CHR ''x'' # pad p))"
    using False by (subst toHex.simps) (simp add: Let_def pad_alt even_iff_mod_2_eq_zero [symmetric])
  then show ?thesis using False by (simp add: trim_0x normal_digits_def)
qed

lemma toHex_bare:
  assumes "take 1 v \<noteq> ''-''" and "take 2 v \<noteq> ''0x''"
  shows "toHex v = Inr (CHR ''0'' # CHR ''x'' # normal_digits v)"
proof (cases "v = []")
  case True
  then show ?thesis by (subst toHex.simps) (simp add: normal_digits_def)
next
  case False
  have "toHex v = Inr (trim (CHR ''0'' # CHR ''x'' # pad v))"
    using assms False by (subst toHex.simps) (simp add: Let_def pad_alt even_iff_mod_2_eq_zero [symmetric])
  then show ?thesis using False by (simp add: trim_0x normal_digits_def)
qed

lemma toHex_unsigned: 
  assumes "take 1 v \<noteq> ''-''"
  shows "toHex v = Inr (CHR ''0'' # CHR ''x'' # normal_digits (payload v))"
proof (cases "take 2 v = ''0x''")
  case True
  then obtain p where "v = CHR ''0'' # CHR ''x'' # p" by (auto simp: take2_iff)
  then show ?thesis by (simp add: toHex_0x payload_def)
next
  case False
  then show ?thesis using assms by (simp add: toHex_bare payload_def)
qed

lemma toHex_signed:
  "toHex (CHR ''-'' # v) =
     (if take 1 v = ''-'' then Inl (InvalidArgument ''invalid hex'')
      else if normal_digits (payload v) = ''00'' then Inr ''0x00''
      else Inr (CHR ''-'' # CHR ''0'' # CHR ''x'' # normal_digits (payload v)))"
proof (cases "take 1 v = ''-''")
  case True
  then show ?thesis by (subst toHex.simps) simp
next
  case False
  then show ?thesis by (subst toHex.simps) (simp add: toHex_unsigned)
qed

lemma toHex_fix_unsigned: "minimal_even ds \<Longrightarrow> toHex (CHR ''0'' # CHR ''x'' # ds) = Inr (CHR ''0'' # CHR ''x'' # ds)"
  by (simp add: toHex_unsigned payload_def normal_digits_fix)

lemma toHex_idem: "toHex s = Inr w \<Longrightarrow> toHex w = Inr w"
proof (cases "take 1 s = ''-''")
  case False
  assume "toHex s = Inr w"
  with False have "w = ''0x'' @ normal_digits (payload s)" by (simp add: toHex_unsigned)
  then show ?thesis by (simp add: toHex_fix_unsigned normal_digits_minimal)
next
  case True
  assume r: "toHex s = Inr w"
  from True obtain v where s: "s = CHR ''-'' # v" by (cases s) auto
  let ?n = "normal_digits (payload v)"
  have m: "minimal_even ?n" by (rule normal_digits_minimal)
  from r s have w: "w = (if ?n = ''00'' then ''0x00'' else ''-0x'' @ ?n)" and nn: "take 1 v \<noteq> ''-''"
    by (auto simp: toHex_signed split: if_splits)
  show ?thesis
  proof (cases "?n = ''00''")
    case True
    with w have "w = ''0x'' @ ?n" by simp
    then show ?thesis using m by (simp add: toHex_fix_unsigned)
  next
    case False
    with w have "w = CHR ''-'' # (''0x'' @ ?n)" by simp
    moreover have "payload (''0x'' @ ?n) = ?n" by (simp add: payload_def)
    ultimately show ?thesis using False m by (simp add: toHex_signed normal_digits_fix)
  qed
qed


section \<open>Digits, parsing and rendering\<close>

lemma digit_char_code:
  "d < 16 \<Longrightarrow> (of_char (digit_char d) :: nat) = (if d < 10 then 48 + d else 87 + d)"
  by (simp add: digit_char_def)

lemma digit_char_eq:
  assumes "d < 16"
  shows "(digit_char d = c) = ((of_char c :: nat) = (if d < 10 then 48 + d else 87 + d))"
proof -
  have "(digit_char d = c) = ((of_char (digit_char d) :: nat) = of_char c)"
    by (simp only: of_char_eq_iff)
  also have "\<dots> = ((of_char c :: nat) = (if d < 10 then 48 + d else 87 + d))"
    using assms by (simp only: digit_char_code) auto
  finally show ?thesis .
qed

lemma digit_value_char: "d < 16 \<Longrightarrow> digit_value (digit_char d) = Some d"
  by (simp add: digit_value_def digit_char_code Let_def)

lemma digit_char_zero: "digit_char 0 = CHR ''0''"
  by (simp add: digit_char_eq)

lemma digit_value_zero: "digit_value CHR ''0'' = Some 0"
  by (simp add: digit_value_def)

lemma is_base_digit_char: "d < base \<Longrightarrow> base \<le> 16 \<Longrightarrow> is_base_digit base (digit_char d)"
  by (simp add: is_base_digit_def digit_value_char)

lemma is_base_digitE:
  assumes "is_base_digit base c"
  obtains d where "digit_value c = Some d" "d < base" "digit_char d = c"
  using assms by (auto simp: is_base_digit_def split: option.splits)

lemma is_base_digit_code:
  assumes "base \<le> 16"
  shows "is_base_digit base c =
     ((48 \<le> (of_char c :: nat) \<and> (of_char c :: nat) \<le> 57 \<and> (of_char c :: nat) < 48 + base)
      \<or> (97 \<le> (of_char c :: nat) \<and> (of_char c :: nat) \<le> 102 \<and> (of_char c :: nat) < 87 + base))"
proof -
  define n where "n = (of_char c :: nat)"
  consider (dig) "48 \<le> n \<and> n \<le> 57" | (low) "97 \<le> n \<and> n \<le> 102"
    | (up) "65 \<le> n \<and> n \<le> 70" | (none) "n < 48 \<or> (57 < n \<and> n < 65) \<or> (70 < n \<and> n < 97) \<or> 102 < n"
    by arith
  then have "is_base_digit base c = ((48 \<le> n \<and> n \<le> 57 \<and> n < 48 + base) \<or> (97 \<le> n \<and> n \<le> 102 \<and> n < 87 + base))"
  proof cases
    case dig
    then have v: "digit_value c = Some (n - 48)" by (simp add: digit_value_def n_def)
    have "digit_char (n - 48) = c" using dig by (subst digit_char_eq) (auto simp: n_def)
    with v dig show ?thesis by (auto simp: is_base_digit_def)
  next
    case low
    then have v: "digit_value c = Some (n - 87)" by (simp add: digit_value_def n_def)
    have "digit_char (n - 87) = c" using low by (subst digit_char_eq) (auto simp: n_def)
    with v low show ?thesis by (auto simp: is_base_digit_def)
  next
    case up
    then have v: "digit_value c = Some (n - 55)" by (simp add: digit_value_def n_def)
    have "digit_char (n - 55) \<noteq> c" using up by (subst digit_char_eq) (auto simp: n_def)
    with v up show ?thesis by (auto simp: is_base_digit_def)
  next
    case none
    then have v: "digit_value c = None" by (auto simp add: digit_value_def n_def)
    with none show ?thesis by (auto simp: is_base_digit_def)
  qed
  then show ?thesis by (simp only: n_def)
qed

lemma is_digit_base: "is_digit c = is_base_digit 10 c"
  by (subst is_base_digit_code) (auto simp: is_digit_def)

lemma is_hex_lower_base: "is_hex_lower c = is_base_digit 16 c"
  by (subst is_base_digit_code) (auto simp: is_hex_lower_def is_digit_def)

lemma is_hex_any_value: "is_hex_any c \<Longrightarrow> \<exists>d<16. digit_value c = Some d"
  unfolding is_hex_any_def is_hex_lower_def is_digit_def digit_value_def Let_def by auto

lemma base_digit_not_special:
  assumes "is_base_digit 16 c"
  shows "c \<noteq> CHR ''-'' \<and> c \<noteq> CHR ''x'' \<and> c \<noteq> CHR ''X''"
proof -
  have "is_base_digit 16 c = ((48 \<le> (of_char c :: nat) \<and> (of_char c :: nat) \<le> 57 \<and> (of_char c :: nat) < 48 + 16)
      \<or> (97 \<le> (of_char c :: nat) \<and> (of_char c :: nat) \<le> 102 \<and> (of_char c :: nat) < 87 + 16))"
    by (rule is_base_digit_code) simp
  with assms show ?thesis by auto
qed

lemma is_hex_lower_any: "is_hex_lower c \<Longrightarrow> is_hex_any c"
  by (simp add: is_hex_any_def)


lemma render_small: "n < base \<Longrightarrow> render_digits base n = [digit_char n]"
  by (subst render_digits.simps) simp

lemma render_step:
  "2 \<le> base \<Longrightarrow> base \<le> n \<Longrightarrow>
   render_digits base n = render_digits base (n div base) @ [digit_char (n mod base)]"
  by (subst render_digits.simps) simp

lemma render_push:
  assumes "2 \<le> base" and "0 < acc" and "d < base"
  shows "render_digits base (acc * base + d) = render_digits base acc @ [digit_char d]"
proof -
  have "base \<le> acc * base + d" using assms by (cases acc) auto
  moreover have "(acc * base + d) div base = acc" using assms by simp
  moreover have "(acc * base + d) mod base = d" using assms by simp
  ultimately show ?thesis using assms(1) by (simp add: render_step)
qed

lemma parse_snoc:
  "parse_digits base acc (xs @ [c]) =
     (case parse_digits base acc xs of
        None \<Rightarrow> None
      | Some a \<Rightarrow> parse_digits base a [c])"
  by (induction xs arbitrary: acc) (auto split: option.splits)

lemma parse_render:
  assumes "2 \<le> base" and "base \<le> 16"
  shows "parse_digits base 0 (render_digits base n) = Some n"
proof (induction n rule: less_induct)
  case (less n)
  show ?case
  proof (cases "n < base")
    case True
    then have "digit_value (digit_char n) = Some n" using assms by (simp add: digit_value_char)
    then show ?thesis using True by (simp add: render_small)
  next
    case False
    have lt: "n div base < n" using False assms by simp
    have "n mod base < base" using assms by simp
    with assms have "n mod base < 16" by linarith
    then have dv: "digit_value (digit_char (n mod base)) = Some (n mod base)"
      by (rule digit_value_char)
    have "parse_digits base 0 (render_digits base n)
          = parse_digits base (n div base) [digit_char (n mod base)]"
      using False assms less [OF lt] by (simp add: render_step parse_snoc)
    also have "\<dots> = Some (n div base * base + n mod base)"
      using dv assms by simp
    finally show ?thesis by simp
  qed
qed

lemma render_digits_all:
  assumes "2 \<le> base" and "base \<le> 16"
  shows "list_all (is_base_digit base) (render_digits base n)"
proof (induction n rule: less_induct)
  case (less n)
  show ?case
  proof (cases "n < base")
    case True
    then show ?thesis using assms by (simp add: render_small is_base_digit_char)
  next
    case False
    have lt: "n div base < n" using False assms by simp
    have "n mod base < base" using assms by simp
    then have "is_base_digit base (digit_char (n mod base))"
      using assms by (simp add: is_base_digit_char)
    then show ?thesis using False assms less [OF lt] by (simp add: render_step)
  qed
qed

lemma render_digits_head:
  assumes "2 \<le> base" and "base \<le> 16"
  shows "\<exists>c cs. render_digits base n = c # cs \<and> (0 < n \<longrightarrow> c \<noteq> CHR ''0'')"
proof (induction n rule: less_induct)
  case (less n)
  show ?case
  proof (cases "n < base")
    case True
    have "0 < n \<Longrightarrow> digit_char n \<noteq> CHR ''0''"
    proof
      assume "0 < n" and "digit_char n = CHR ''0''"
      then have "digit_value (digit_char n) = Some 0" by (simp add: digit_value_zero)
      moreover have "digit_value (digit_char n) = Some n" using True assms by (simp add: digit_value_char)
      ultimately show False using \<open>0 < n\<close> by simp
    qed
    then show ?thesis using True by (auto simp: render_small)
  next
    case False
    have lt: "n div base < n" using False assms by simp
    have pos: "0 < n div base" using False assms by (simp add: div_greater_zero_iff)
    from less [OF lt] pos obtain c cs where "render_digits base (n div base) = c # cs" "c \<noteq> CHR ''0''"
      by auto
    then show ?thesis using False assms by (simp add: render_step)
  qed
qed

lemma parse_leading_zero: "0 < base \<Longrightarrow> parse_digits base 0 (CHR ''0'' # ds) = parse_digits base 0 ds"
  by (simp add: digit_value_zero)

lemma parse_positive:
  assumes "2 \<le> base"
  shows "list_all (is_base_digit base) ds \<Longrightarrow> 0 < acc \<Longrightarrow>
         \<exists>v. parse_digits base acc ds = Some v \<and> 0 < v
             \<and> render_digits base v = render_digits base acc @ ds"
proof (induction ds arbitrary: acc)
  case Nil
  then show ?case by simp
next
  case (Cons c cs)
  from Cons.prems obtain d where d: "digit_value c = Some d" "d < base" "digit_char d = c"
    by (auto elim: is_base_digitE)
  have pos: "0 < acc * base + d" using Cons.prems assms by simp
  from Cons.prems have "list_all (is_base_digit base) cs" by simp
  from Cons.IH [OF this pos] obtain v where
    v: "parse_digits base (acc * base + d) cs = Some v" "0 < v"
       "render_digits base v = render_digits base (acc * base + d) @ cs" by blast
  have "render_digits base (acc * base + d) = render_digits base acc @ [c]"
    using render_push [OF assms Cons.prems(2) d(2)] d(3) by simp
  with v d show ?case by simp
qed

lemma parse_strip:
  assumes "2 \<le> base" and "base \<le> 16"
  shows "list_all (is_base_digit base) ds \<Longrightarrow>
         \<exists>v. parse_digits base 0 ds = Some v \<and> render_digits base v = strip_zeros ds
             \<and> (v = 0 \<longleftrightarrow> list_all (\<lambda>c. c = CHR ''0'') ds)"
proof (induction ds)
  case Nil
  then show ?case using assms by (simp add: strip_zeros_def render_small digit_char_zero)
next
  case (Cons c cs)
  show ?case
  proof (cases "c = CHR ''0''")
    case True
    from Cons have "\<exists>v. parse_digits base 0 cs = Some v \<and> render_digits base v = strip_zeros cs
             \<and> (v = 0 \<longleftrightarrow> list_all (\<lambda>c. c = CHR ''0'') cs)" by simp
    moreover have "strip_zeros (c # cs) = strip_zeros cs" using True by (simp add: strip_zeros_def)
    moreover have "parse_digits base 0 (c # cs) = parse_digits base 0 cs"
      using True assms by (simp add: digit_value_zero)
    ultimately show ?thesis using True by simp
  next
    case False
    from Cons.prems obtain d where d: "digit_value c = Some d" "d < base" "digit_char d = c"
      by (auto elim: is_base_digitE)
    have "d \<noteq> 0"
    proof
      assume "d = 0"
      with d(3) have "c = CHR ''0''" by (simp add: digit_char_zero)
      with False show False by simp
    qed
    then have pos: "0 < 0 * base + d" by simp
    from Cons.prems have "list_all (is_base_digit base) cs" by simp
    from parse_positive [OF assms(1) this pos] obtain v where
      v: "parse_digits base (0 * base + d) cs = Some v" "0 < v"
         "render_digits base v = render_digits base (0 * base + d) @ cs" by blast
    have "render_digits base (0 * base + d) = [c]" using d by (simp add: render_small)
    moreover have "strip_zeros (c # cs) = c # cs" using False by (simp add: strip_zeros_def)
    ultimately show ?thesis using v d False by simp
  qed
qed

section \<open>The encoding of an integer\<close>

lemma no_x_no_match: "\<forall>c \<in> set s. c \<noteq> CHR ''x'' \<and> c \<noteq> CHR ''X'' \<Longrightarrow> \<not> match_hex s"
  by (induction s rule: match_hex.induct) auto

lemma digits_no_prefix:
  assumes "list_all (is_base_digit 16) r"
  shows "take 1 r \<noteq> ''-''" and "take 2 r \<noteq> ''0x''"
proof -
  have *: "c \<noteq> CHR ''-'' \<and> c \<noteq> CHR ''x''" if "c \<in> set r" for c
  proof -
    from that assms have "is_base_digit 16 c" by (simp add: list_all_iff)
    then show ?thesis by (simp add: base_digit_not_special)
  qed
  show "take 1 r \<noteq> ''-''"
  proof (cases r)
    case Nil
    then show ?thesis by simp
  next
    case (Cons a as)
    then have "a \<noteq> CHR ''-''" using * [of a] by simp
    then show ?thesis using Cons by simp
  qed
  show "take 2 r \<noteq> ''0x''"
  proof
    assume "take 2 r = ''0x''"
    then obtain p where "r = CHR ''0'' # CHR ''x'' # p" by (auto simp: take2_iff)
    then have "CHR ''x'' \<in> set r" by simp
    then show False using * [of "CHR ''x''"] by simp
  qed
qed

lemma pad_digits: "list_all (is_base_digit 16) r \<Longrightarrow> list_all (is_base_digit 16) (pad r)"
proof -
  have "is_base_digit 16 (digit_char 0)" by (rule is_base_digit_char) simp_all
  then show "list_all (is_base_digit 16) r \<Longrightarrow> list_all (is_base_digit 16) (pad r)"
    by (simp add: pad_alt digit_char_zero)
qed

lemma render16_digits: "list_all (is_base_digit 16) (render_digits 16 n)"
  by (rule render_digits_all) simp_all

lemma render16_pad_minimal: "minimal_even (pad (render_digits 16 n))"
proof -
  obtain c cs where r: "render_digits 16 n = c # cs" and c: "0 < n \<longrightarrow> c \<noteq> CHR ''0''"
    using render_digits_head [of 16 n] by auto
  show ?thesis
  proof (cases "n = 0")
    case True
    then show ?thesis by (simp add: render_small digit_char_zero pad_alt minimal_even_def)
  next
    case False
    with c have "c \<noteq> CHR ''0''" by simp
    then show ?thesis
      by (cases cs) (auto simp: r pad_alt minimal_even_def)
  qed
qed

lemma render16_pad_nonzero: "0 < n \<Longrightarrow> pad (render_digits 16 n) \<noteq> ''00''"
proof -
  assume "0 < n"
  then obtain c cs where r: "render_digits 16 n = c # cs" and c: "c \<noteq> CHR ''0''"
    using render_digits_head [of 16 n] by auto
  then show ?thesis by (auto simp: pad_alt)
qed

lemma normal_render16: "normal_digits (render_digits 16 n) = pad (render_digits 16 n)"
proof -
  obtain c cs where r: "render_digits 16 n = c # cs"
    using render_digits_head [of 16 n] by auto
  then have "normal_digits (render_digits 16 n) = strip_pairs (pad (render_digits 16 n))"
    by (simp add: normal_digits_def)
  then show ?thesis by (simp add: strip_pairs_fix render16_pad_minimal)
qed

lemma toHex_render16: "toHex (render_digits 16 n) = Inr (enc_nat n)"
  using digits_no_prefix [OF render16_digits [of n]]
  by (simp add: toHex_bare normal_render16 enc_nat_def)

lemma toHex_BN_enc: "toHex_BN n = Inr (enc n)"
proof (cases "n < 0")
  case False
  then show ?thesis by (simp add: toHex_BN_def BN_toString_def enc_def toHex_render16)
next
  case True
  let ?r = "render_digits 16 (nat (- n))"
  have p: "payload ?r = ?r" using digits_no_prefix(2) [OF render16_digits] by (simp add: payload_def)
  have nz: "pad ?r \<noteq> ''00''" using True by (simp add: render16_pad_nonzero)
  have "toHex (CHR ''-'' # ?r) = Inr (CHR ''-'' # CHR ''0'' # CHR ''x'' # pad ?r)"
    using digits_no_prefix(1) [OF render16_digits [of "nat (- n)"]] nz
    by (simp add: toHex_signed p normal_render16)
  then show ?thesis using True by (simp add: toHex_BN_def BN_toString_def enc_def enc_nat_def)
qed

lemma match_hex_0x:
  "is_hex_any c \<Longrightarrow> match_hex (CHR ''0'' # CHR ''x'' # c # cs)"
  "is_hex_any c \<Longrightarrow> match_hex (CHR ''-'' # CHR ''0'' # CHR ''x'' # c # cs)"
  by simp_all

lemma base16_any: "is_base_digit 16 c \<Longrightarrow> is_hex_any c"
  by (simp add: is_hex_lower_base [symmetric] is_hex_any_def)

lemma match_hex_enc: "match_hex (enc n)"
proof -
  have "\<exists>c cs. pad (render_digits 16 m) = c # cs \<and> is_hex_any c" for m
  proof -
    have "list_all (is_base_digit 16) (pad (render_digits 16 m))"
      by (rule pad_digits) (rule render16_digits)
    moreover have "pad (render_digits 16 m) \<noteq> []"
      using render16_pad_minimal [of m] by (simp add: minimal_even_def)
    ultimately show ?thesis by (cases "pad (render_digits 16 m)") (auto dest: base16_any)
  qed
  then obtain c cs where "pad (render_digits 16 (nat \<bar>n\<bar>)) = c # cs" "is_hex_any c"
    by blast
  then show ?thesis by (cases "n < 0") (simp_all add: enc_def enc_nat_def abs_if)
qed

lemma from_enc: "BigNumber_from (VString (enc n)) = Inr \<lparr>hex = enc n\<rparr>"
proof -
  have "toHex (BN_toString n 16) = Inr (enc n)" using toHex_BN_enc [of n] by (simp add: toHex_BN_def)
  then have "toHex (enc n) = Inr (enc n)" by (rule toHex_idem)
  then show ?thesis by (simp add: BigNumber_from.simps match_hex_enc new_BigNumber_def)
qed

lemma toBigNumber_enc: "toBigNumber n = Inr \<lparr>hex = enc n\<rparr>"
  by (simp add: toBigNumber_def toHex_BN_enc from_enc)

lemma parse_pad: "parse_digits 16 0 (pad ds) = parse_digits 16 0 ds"
  by (simp add: pad_alt digit_value_zero)

lemma BN_new_enc_nat: "BN_new (pad (render_digits 16 m)) 16 = Inr (int m)"
proof -
  have "take 1 (pad (render_digits 16 m)) \<noteq> ''-''"
    by (rule digits_no_prefix) (rule pad_digits, rule render16_digits)
  then show ?thesis by (simp add: BN_new_def parse_pad parse_render)
qed

lemma toBN_enc: "toBN (VBigNumber \<lparr>hex = enc n\<rparr>) = Inr n"
proof (cases "n < 0")
  case False
  then show ?thesis
    by (simp add: toBN_def BigNumber_from.simps toHexString_def enc_def enc_nat_def BN_new_enc_nat)
next
  case True
  have "BN_new (CHR ''-'' # pad (render_digits 16 (nat (- n)))) 16 = Inr n"
    using True by (simp add: BN_new_def parse_pad parse_render)
  then show ?thesis using True
    by (simp add: toBN_def BigNumber_from.simps toHexString_def enc_def enc_nat_def)
qed

lemma enc_inject:
  assumes "enc n = enc m"
  shows "n = m"
proof -
  have "(Inr n :: error + int) = toBN (VBigNumber \<lparr>hex = enc n\<rparr>)" by (simp only: toBN_enc)
  also have "\<dots> = toBN (VBigNumber \<lparr>hex = enc m\<rparr>)" by (simp only: assms)
  also have "\<dots> = Inr m" by (simp only: toBN_enc)
  finally show ?thesis by simp
qed

section \<open>Results and errors of the constructor\<close>

lemma toHex_error: "toHex s = Inl e \<Longrightarrow> e = InvalidArgument ''invalid hex''"
proof (cases "take 1 s = ''-''")
  case False
  assume "toHex s = Inl e"
  with False show ?thesis by (simp add: toHex_unsigned)
next
  case True
  assume r: "toHex s = Inl e"
  from True obtain v where "s = CHR ''-'' # v" by (cases s) auto
  with r show ?thesis by (auto simp: toHex_signed split: if_splits)
qed

lemma toHex_shape:
  assumes "toHex s = Inr w"
  shows "\<exists>ds. minimal_even ds \<and> set ds \<subseteq> insert CHR ''0'' (set s)
           \<and> (w = CHR ''0'' # CHR ''x'' # ds
               \<or> (w = CHR ''-'' # CHR ''0'' # CHR ''x'' # ds \<and> ds \<noteq> ''00''))"
proof (cases "take 1 s = ''-''")
  case False
  have "set (payload s) \<subseteq> set s" by (auto simp: payload_def dest: in_set_dropD)
  then have "set (normal_digits (payload s)) \<subseteq> insert CHR ''0'' (set s)"
    using normal_digits_set [of "payload s"] by auto
  with False assms show ?thesis
    by (auto simp: toHex_unsigned intro: normal_digits_minimal)
next
  case True
  then obtain v where s: "s = CHR ''-'' # v" by (cases s) auto
  have "set (payload v) \<subseteq> set v" by (auto simp: payload_def dest: in_set_dropD)
  then have sub: "set (normal_digits (payload v)) \<subseteq> insert CHR ''0'' (set s)"
    using normal_digits_set [of "payload v"] s by auto
  have m: "minimal_even (normal_digits (payload v))" by (rule normal_digits_minimal)
  from assms s have "w = (if normal_digits (payload v) = ''00'' then ''0x00''
                          else CHR ''-'' # CHR ''0'' # CHR ''x'' # normal_digits (payload v))"
    by (auto simp: toHex_signed split: if_splits)
  then show ?thesis using sub m by (cases "normal_digits (payload v) = ''00''") auto
qed

lemma toHex_not_negative_zero: "toHex s \<noteq> Inr ''-0x00''"
proof
  assume "toHex s = Inr ''-0x00''"
  from toHex_shape [OF this] show False by auto
qed

lemma from_string_cases:
  assumes "BigNumber_from (VString s) = Inr b"
  shows "(match_hex s \<and> toHex s = Inr (hex b))
         \<or> (\<not> match_hex s \<and> match_decimal s \<and> (\<exists>n. BN_new s 10 = Inr n \<and> hex b = enc n))"
  using assms
  by (auto simp: BigNumber_from.simps new_BigNumber_def toHex_BN_enc
           split: if_splits sum.splits)

lemma from_reduces:
  "BigNumber_from v = Inr b \<Longrightarrow>
     (\<exists>b'. v = VBigNumber b') \<or> (\<exists>s. BigNumber_from (VString s) = Inr b)"
  by (cases v) (auto simp: BigNumber_from.simps split: if_splits hex_result.splits)

lemma from_not_negative_zero:
  assumes "BigNumber_from v = Inr b" and "\<forall>b'. v \<noteq> VBigNumber b'"
  shows "hex b \<noteq> ''-0x00''"
proof -
  from from_reduces [OF assms(1)] assms(2) obtain s where "BigNumber_from (VString s) = Inr b"
    by blast
  from from_string_cases [OF this] show ?thesis
  proof
    assume "match_hex s \<and> toHex s = Inr (hex b)"
    then show ?thesis using toHex_not_negative_zero [of s] by auto
  next
    assume "\<not> match_hex s \<and> match_decimal s \<and> (\<exists>n. BN_new s 10 = Inr n \<and> hex b = enc n)"
    then obtain n where "hex b = enc n" by blast
    then show ?thesis using toHex_not_negative_zero [of "BN_toString n 16"] toHex_BN_enc [of n]
      by (auto simp: toHex_BN_def)
  qed
qed

lemma BN_new_error: "BN_new s base = Inl e \<Longrightarrow> e = EngineError"
  by (auto simp: BN_new_def split: if_splits option.splits)

lemma from_string_error:
  "BigNumber_from (VString s) = Inl e \<Longrightarrow>
     e = InvalidArgument ''invalid hex'' \<or> e = InvalidArgument ''invalid BigNumber string''
     \<or> e = EngineError"
  by (auto simp: BigNumber_from.simps toHex_BN_enc split: if_splits sum.splits
           dest: toHex_error BN_new_error)

lemma from_error:
  assumes "BigNumber_from v = Inl e"
  shows "e \<noteq> NumericFault ''division by zero'' ''div''"
proof (cases v)
  case VNull
  with assms show ?thesis by (simp add: BigNumber_from.simps)
next
  case (VBigNumber x)
  with assms show ?thesis by (simp add: BigNumber_from.simps)
next
  case (VString s)
  with assms from_string_error [of s e] show ?thesis by auto
next
  case (VNumber x)
  with assms from_string_error [of "String_number x" e] show ?thesis
    by (auto simp: BigNumber_from.simps split: if_splits)
next
  case (VBigInt k)
  with assms from_string_error [of "int_toString k" e] show ?thesis
    by (auto simp: BigNumber_from.simps)
next
  case (VBytes bs)
  with assms from_string_error [of "hexlify bs" e] show ?thesis
    by (auto simp only: BigNumber_from.simps error.distinct)
next
  case (VObject ob)
  show ?thesis
  proof (cases "isBytes (VObject ob)")
    case True
    with assms VObject have "BigNumber_from (VString (hexlify (the (elements ob)))) = Inl e"
      by (simp only: BigNumber_from.simps(6) if_True)
    from from_string_error [OF this] show ?thesis by auto
  next
    case nb: False
    show ?thesis
    proof (cases "case field_hex ob of None \<Rightarrow> False | Some h \<Rightarrow> h \<noteq> [] \<and> isHexString h")
      case True
      with assms VObject nb have "BigNumber_from (VString (the (field_hex ob))) = Inl e"
        by (simp add: BigNumber_from.simps(6))
      from from_string_error [OF this] show ?thesis by auto
    next
      case False
      show ?thesis
      proof (cases "call_toHexString ob")
        case (ReturnsString s)
        with assms VObject nb False have "BigNumber_from (VString s) = Inl e"
          by (simp add: BigNumber_from.simps(6))
        from from_string_error [OF this] show ?thesis by auto
      next
        case Absent
        with assms VObject nb False show ?thesis by (auto simp: BigNumber_from.simps(6))
      next
        case ReturnsOther
        with assms VObject nb False show ?thesis by (auto simp: BigNumber_from.simps(6))
      qed
    qed
  qed
qed

section \<open>Decimal strings and native integers\<close>

lemma is_base_digit_mono: "is_base_digit b c \<Longrightarrow> b \<le> b' \<Longrightarrow> is_base_digit b' c"
  by (auto simp: is_base_digit_def split: option.splits)

lemma digits10_16: "list_all is_digit ds \<Longrightarrow> list_all (is_base_digit 16) ds"
  by (auto simp: list_all_iff is_digit_base intro: is_base_digit_mono)

lemma decimal_no_hex:
  assumes "match_decimal s"
  shows "\<not> match_hex s"
proof (rule no_x_no_match, rule ballI)
  fix c assume c: "c \<in> set s"
  show "c \<noteq> CHR ''x'' \<and> c \<noteq> CHR ''X''"
  proof (cases "take 1 s = ''-''")
    case True
    then obtain r where s: "s = CHR ''-'' # r" by (cases s) auto
    with assms have "list_all (is_base_digit 16) r"
      by (simp add: match_decimal_def digits10_16)
    with c s show ?thesis by (auto simp: list_all_iff dest: base_digit_not_special)
  next
    case False
    with assms have "list_all (is_base_digit 16) s"
      by (simp add: match_decimal_def digits10_16)
    with c show ?thesis by (auto simp: list_all_iff dest: base_digit_not_special)
  qed
qed

lemma decimal_value:
  assumes "match_decimal s"
  shows "\<exists>v. parse_digits 10 0 (if take 1 s = ''-'' then drop 1 s else s) = Some v
           \<and> BN_new s 10 = Inr (if take 1 s = ''-'' then - int v else int v)
           \<and> render_digits 10 v = strip_zeros (if take 1 s = ''-'' then drop 1 s else s)
           \<and> (v = 0 \<longleftrightarrow> list_all (\<lambda>c. c = CHR ''0'') (if take 1 s = ''-'' then drop 1 s else s))"
proof -
  let ?r = "if take 1 s = ''-'' then drop 1 s else s"
  from assms have "list_all (is_base_digit 10) ?r"
    by (auto simp: match_decimal_def Let_def list_all_iff is_digit_base)
  from parse_strip [OF _ _ this] obtain v where
    v: "parse_digits 10 0 ?r = Some v" "render_digits 10 v = strip_zeros ?r"
       "v = 0 \<longleftrightarrow> list_all (\<lambda>c. c = CHR ''0'') ?r" by auto
  have "BN_new s 10 = Inr (if take 1 s = ''-'' then - int v else int v)"
    using v(1) by (cases "take 1 s = ''-''") (simp_all add: BN_new_def)
  with v show ?thesis by blast
qed

lemma from_decimal:
  assumes "match_decimal s" and "BN_new s 10 = Inr n"
  shows "BigNumber_from (VString s) = Inr \<lparr>hex = enc n\<rparr>"
  using assms decimal_no_hex [OF assms(1)]
  by (simp add: BigNumber_from.simps toHex_BN_enc new_BigNumber_def)

lemma render10_digits: "list_all is_digit (render_digits 10 n)"
  using render_digits_all [of 10 n] by (simp add: list_all_iff is_digit_base)

lemma render10_nonempty: "render_digits 10 n \<noteq> []"
  using render_digits_head [of 10 n] by auto

lemma render10_no_minus: "take 1 (render_digits 10 n) \<noteq> ''-''"
  by (rule digits_no_prefix) (rule digits10_16, rule render10_digits)

lemma int_toString_decimal: "match_decimal (int_toString k)"
  using render10_no_minus [of "nat k"]
  by (simp add: int_toString_def match_decimal_def render10_digits render10_nonempty)

lemma BN_new_int_toString: "BN_new (int_toString k) 10 = Inr k"
  using render10_no_minus [of "nat k"]
  by (simp add: int_toString_def BN_new_def parse_render)

lemma BN_new_BN_toString: "BN_new (BN_toString k 10) 10 = Inr k"
  using BN_new_int_toString [of k] by (simp add: int_toString_def BN_toString_def)

lemma from_int_toString: "BigNumber_from (VString (int_toString k)) = Inr \<lparr>hex = enc k\<rparr>"
  by (rule from_decimal) (rule int_toString_decimal, rule BN_new_int_toString)

lemma toBN_from:
  "BigNumber_from v = Inr \<lparr>hex = enc n\<rparr> \<Longrightarrow> toBN v = Inr n"
  using toBN_enc [of n] by (simp add: toBN_def BigNumber_from.simps)

lemma from_number:
  "BigNumber_from (VNumber (Finite (of_int k))) =
     (if 9007199254740991 \<le> \<bar>k\<bar> then Inl (NumericFault ''overflow'' ''BigNumber.from'')
      else Inr \<lparr>hex = enc k\<rparr>)"
proof -
  have a: "(MAX_SAFE \<le> rat_of_int k) = (9007199254740991 \<le> k)"
    unfolding MAX_SAFE_def by (metis of_int_le_iff of_int_numeral)
  have b: "(rat_of_int k \<le> - MAX_SAFE) = (k \<le> - 9007199254740991)"
    unfolding MAX_SAFE_def by (metis of_int_le_iff of_int_numeral of_int_minus)
  show ?thesis
    by (auto simp: BigNumber_from.simps(3) mod1_truthy_def number_ge_def number_le_def a b
                   String_number_def from_int_toString)
qed

section \<open>Evaluation and division\<close>

lemmas eval_string =
  BigNumber_from.simps match_decimal_def is_digit_def is_hex_any_def is_hex_lower_def
  toHex_signed toHex_0x payload_def normal_digits_def pad_alt strip_pairs.simps
  new_BigNumber_def

lemmas eval_enc =
  enc_def enc_nat_def render_digits.simps digit_char_eq pad_alt

lemma toBN_instance: "BigNumber_from v = Inr ob \<Longrightarrow> toBN v = toBN (VBigNumber ob)"
  by (simp add: toBN_def BigNumber_from.simps(1))

lemma toBN_error: "toBN v = Inl e \<Longrightarrow> e \<noteq> NumericFault ''division by zero'' ''div''"
  by (auto simp: toBN_def Let_def split: sum.splits if_splits dest: from_error BN_new_error)

lemma binary_op_error: "binary_op f a b \<noteq> Inl (NumericFault ''division by zero'' ''div'')"
  by (auto simp: binary_op_def toBigNumber_enc split: sum.splits option.splits dest: toBN_error)

lemma div_fault_iff:
  "(div_BigNumber f a b = Inl (NumericFault ''division by zero'' ''div'')) = (toBN b = Inr 0)"
proof (cases "BigNumber_from b")
  case (Inl e)
  then have "toBN b = Inl e" by (simp add: toBN_def)
  moreover have "e \<noteq> NumericFault ''division by zero'' ''div''" using Inl by (rule from_error)
  ultimately show ?thesis using Inl by (simp add: div_BigNumber_def)
next
  case (Inr ob)
  then have t: "toBN b = toBN (VBigNumber ob)" by (rule toBN_instance)
  show ?thesis
  proof (cases "toBN (VBigNumber ob)")
    case (Inl e)
    then have "e \<noteq> NumericFault ''division by zero'' ''div''" by (rule toBN_error)
    then show ?thesis using Inl Inr t by (simp add: div_BigNumber_def isZero_def)
  next
    case (Inr n)
    then show ?thesis using \<open>BigNumber_from b = Inr ob\<close> t binary_op_error [of f a b]
      by (simp add: div_BigNumber_def isZero_def)
  qed
qed

section \<open>Canonical form\<close>

lemma canonical_with_mono:
  "canonical_with P h \<Longrightarrow> (\<And>c. P c \<Longrightarrow> Q c) \<Longrightarrow> canonical_with Q h"
  by (auto simp: canonical_with_def list_all_iff split: if_splits)

lemma pad_render16_lower: "list_all is_hex_lower (pad (render_digits 16 m))"
  using pad_digits [OF render16_digits [of m]] by (simp add: list_all_iff is_hex_lower_base)

lemma canonical_enc: "canonical (enc n)"
proof (cases "n < 0")
  case False
  then show ?thesis
    by (simp add: canonical_def canonical_with_def enc_def enc_nat_def
                  render16_pad_minimal pad_render16_lower)
next
  case True
  then show ?thesis
    by (simp add: canonical_def canonical_with_def enc_def enc_nat_def
                  render16_pad_minimal pad_render16_lower render16_pad_nonzero)
qed

lemma canonical_with_shape:
  "canonical_with P h =
     (\<exists>ds. minimal_even ds \<and> list_all P ds
         \<and> (h = CHR ''0'' # CHR ''x'' # ds
            \<or> (h = CHR ''-'' # CHR ''0'' # CHR ''x'' # ds \<and> ds \<noteq> ''00'')))"
proof
  assume c: "canonical_with P h"
  show "\<exists>ds. minimal_even ds \<and> list_all P ds
         \<and> (h = CHR ''0'' # CHR ''x'' # ds
            \<or> (h = CHR ''-'' # CHR ''0'' # CHR ''x'' # ds \<and> ds \<noteq> ''00''))"
  proof (cases "take 1 h = ''-''")
    case True
    then obtain r where h: "h = CHR ''-'' # r" by (cases h) auto
    with c True obtain p where "r = CHR ''0'' # CHR ''x'' # p"
      by (auto simp: canonical_with_def take2_iff)
    with c h show ?thesis by (auto simp: canonical_with_def)
  next
    case False
    with c obtain p where "h = CHR ''0'' # CHR ''x'' # p"
      by (auto simp: canonical_with_def take2_iff)
    with c show ?thesis by (auto simp: canonical_with_def)
  qed
next
  assume "\<exists>ds. minimal_even ds \<and> list_all P ds
         \<and> (h = CHR ''0'' # CHR ''x'' # ds
            \<or> (h = CHR ''-'' # CHR ''0'' # CHR ''x'' # ds \<and> ds \<noteq> ''00''))"
  then show "canonical_with P h" by (auto simp: canonical_with_def)
qed

lemma pad_strip:
  assumes "minimal_even ds"
  shows "pad (strip_zeros ds) = ds"
proof (cases ds)
  case Nil
  with assms show ?thesis by (simp add: minimal_even_def)
next
  case (Cons c rest)
  show ?thesis
  proof (cases "c = CHR ''0''")
    case False
    with Cons assms show ?thesis by (simp add: strip_zeros_def pad_alt minimal_even_def)
  next
    case True
    from assms Cons obtain c' rest' where rest: "rest = c' # rest'"
      by (cases rest) (auto simp: minimal_even_def)
    show ?thesis
    proof (cases "c' = CHR ''0''")
      case False
      with True Cons rest assms show ?thesis
        by (simp add: strip_zeros_def pad_alt minimal_even_def)
    next
      case c0: True
      with True Cons rest assms have "rest' = []" by (auto simp: minimal_even_def)
      with c0 True Cons rest show ?thesis by (simp add: strip_zeros_def pad_alt)
    qed
  qed
qed

lemma canonical_digits_enc:
  assumes "minimal_even ds" and "list_all is_hex_lower ds"
  shows "\<exists>v. parse_digits 16 0 ds = Some v \<and> pad (render_digits 16 v) = ds
           \<and> (v = 0 \<longleftrightarrow> ds = ''00'')"
proof -
  from assms(2) have "list_all (is_base_digit 16) ds"
    by (simp add: list_all_iff is_hex_lower_base)
  from parse_strip [OF _ _ this] obtain v where
    v: "parse_digits 16 0 ds = Some v" "render_digits 16 v = strip_zeros ds" by auto
  have p: "pad (render_digits 16 v) = ds" using v(2) assms(1) by (simp add: pad_strip)
  have "v = 0 \<longleftrightarrow> ds = ''00''"
  proof
    assume "v = 0"
    with p show "ds = ''00''" by (simp add: render_small digit_char_zero pad_alt)
  next
    assume "ds = ''00''"
    with v(1) show "v = 0" by (simp add: digit_value_zero)
  qed
  with v(1) p show ?thesis by blast
qed

lemma canonical_is_enc:
  assumes "canonical h"
  shows "\<exists>n. h = enc n"
proof -
  from assms obtain ds where ds: "minimal_even ds" "list_all is_hex_lower ds"
    and h: "h = CHR ''0'' # CHR ''x'' # ds \<or> (h = CHR ''-'' # CHR ''0'' # CHR ''x'' # ds \<and> ds \<noteq> ''00'')"
    by (auto simp: canonical_def canonical_with_shape)
  from canonical_digits_enc [OF ds] obtain v where
    v: "pad (render_digits 16 v) = ds" "v = 0 \<longleftrightarrow> ds = ''00''" by blast
  from h show ?thesis
  proof
    assume "h = CHR ''0'' # CHR ''x'' # ds"
    with v(1) have "h = enc (int v)" by (simp add: enc_def enc_nat_def)
    then show ?thesis ..
  next
    assume a: "h = CHR ''-'' # CHR ''0'' # CHR ''x'' # ds \<and> ds \<noteq> ''00''"
    with v(2) have "0 < v" by simp
    with a v(1) have "h = enc (- int v)" by (simp add: enc_def enc_nat_def)
    then show ?thesis ..
  qed
qed


lemma full_hex_shape:
  "full_hex P s =
     (\<exists>c p. P c \<and> list_all P p
         \<and> (s = CHR ''0'' # CHR ''x'' # c # p \<or> s = CHR ''-'' # CHR ''0'' # CHR ''x'' # c # p))"
proof
  assume f: "full_hex P s"
  show "\<exists>c p. P c \<and> list_all P p
         \<and> (s = CHR ''0'' # CHR ''x'' # c # p \<or> s = CHR ''-'' # CHR ''0'' # CHR ''x'' # c # p)"
  proof (cases "take 1 s = ''-''")
    case True
    then obtain r where s: "s = CHR ''-'' # r" by (cases s) auto
    with f obtain q where r: "r = CHR ''0'' # CHR ''x'' # q"
      by (auto simp: full_hex_def take2_iff)
    with f s obtain c p where "q = c # p" by (cases q) (auto simp: full_hex_def)
    with f s r show ?thesis by (auto simp: full_hex_def)
  next
    case False
    with f obtain q where r: "s = CHR ''0'' # CHR ''x'' # q"
      by (auto simp: full_hex_def take2_iff)
    with f obtain c p where "q = c # p" by (cases q) (auto simp: full_hex_def)
    with f r show ?thesis by (auto simp: full_hex_def)
  qed
next
  assume "\<exists>c p. P c \<and> list_all P p
         \<and> (s = CHR ''0'' # CHR ''x'' # c # p \<or> s = CHR ''-'' # CHR ''0'' # CHR ''x'' # c # p)"
  then show "full_hex P s" by (auto simp: full_hex_def)
qed

lemma normal_digits_all:
  assumes "P CHR ''0''" and "list_all P p"
  shows "list_all P (normal_digits p)"
  using normal_digits_set [of p] assms by (auto simp: list_all_iff)

lemma toHex_full_hex:
  assumes "full_hex P s" and "P CHR ''0''"
  shows "\<exists>w. toHex s = Inr w \<and> canonical_with P w"
proof -
  from assms(1) obtain c p where cp: "P c" "list_all P p"
    and s: "s = CHR ''0'' # CHR ''x'' # c # p \<or> s = CHR ''-'' # CHR ''0'' # CHR ''x'' # c # p"
    by (auto simp: full_hex_shape)
  let ?n = "normal_digits (c # p)"
  have m: "minimal_even ?n" by (rule normal_digits_minimal)
  have a: "list_all P ?n" using cp assms(2) by (intro normal_digits_all) simp_all
  from s show ?thesis
  proof
    assume "s = CHR ''0'' # CHR ''x'' # c # p"
    then have "toHex s = Inr (CHR ''0'' # CHR ''x'' # ?n)" by (simp add: toHex_0x)
    then show ?thesis using m a by (auto simp: canonical_with_shape)
  next
    assume "s = CHR ''-'' # CHR ''0'' # CHR ''x'' # c # p"
    then have "toHex s = (if ?n = ''00'' then Inr ''0x00''
                          else Inr (CHR ''-'' # CHR ''0'' # CHR ''x'' # ?n))"
      by (simp add: toHex_signed payload_def)
    then show ?thesis using m a by (cases "?n = ''00''") (auto simp: canonical_with_shape)
  qed
qed

lemma from_string_canonical:
  assumes "plain_string P s" and "BigNumber_from (VString s) = Inr r"
    and "P CHR ''0''" and "\<And>c. is_hex_lower c \<Longrightarrow> P c"
  shows "canonical_with P (hex r)"
proof -
  from from_string_cases [OF assms(2)] show ?thesis
  proof
    assume a: "match_hex s \<and> toHex s = Inr (hex r)"
    with assms(1) have "full_hex P s" by (simp add: plain_string_def)
    from toHex_full_hex [OF this assms(3)] a show ?thesis by auto
  next
    assume "\<not> match_hex s \<and> match_decimal s \<and> (\<exists>n. BN_new s 10 = Inr n \<and> hex r = enc n)"
    then obtain n where "hex r = enc n" by blast
    then have "canonical_with is_hex_lower (hex r)" using canonical_enc [of n] by (simp add: canonical_def)
    then show ?thesis using assms(4) by (rule canonical_with_mono)
  qed
qed

lemma hexlify_plain: "plain_string is_hex_lower (hexlify bs)"
proof (cases bs)
  case Nil
  then show ?thesis by (simp add: plain_string_def)
next
  case (Cons b rest)
  have d: "is_hex_lower (digit_char (unat x div 16)) \<and> is_hex_lower (digit_char (unat x mod 16))"
    for x :: "8 word"
  proof -
    have "unat x < 2 ^ LENGTH(8)" by (rule unsigned_less)
    then have "unat x < 256" by simp
    then have "unat x div 16 < 16" "unat x mod 16 < 16" by simp_all
    then show ?thesis by (simp add: is_hex_lower_base is_base_digit_char)
  qed
  have "list_all is_hex_lower (concat (map (\<lambda>b. [digit_char (unat b div 16), digit_char (unat b mod 16)]) xs))"
    for xs :: "8 word list"
    by (induction xs) (simp_all add: d)
  then have "full_hex is_hex_lower (hexlify bs)"
    using Cons by (simp add: full_hex_def d)
  then show ?thesis by (simp add: plain_string_def)
qed

lemma from_canonical:
  assumes "plain_input P v" and "BigNumber_from v = Inr r"
    and "P CHR ''0''" and "\<And>c. is_hex_lower c \<Longrightarrow> P c"
  shows "canonical_with P (hex r)"
proof (cases v)
  case VNull
  with assms(2) show ?thesis by (simp add: BigNumber_from.simps)
next
  case (VBigNumber b)
  with assms(1,2) show ?thesis by (simp add: BigNumber_from.simps plain_input_def)
next
  case (VString s)
  with assms show ?thesis by (auto simp: plain_input_def intro: from_string_canonical)
next
  case (VNumber x)
  with assms(2) have fr: "BigNumber_from (VString (String_number x)) = Inr r"
    by (auto simp: BigNumber_from.simps(3) split: if_splits)
  have "plain_string P (String_number x)"
  proof (cases x)
    case (Finite q)
    then show ?thesis using decimal_no_hex [OF int_toString_decimal]
      by (simp add: String_number_def plain_string_def)
  qed (simp_all add: String_number_def plain_string_def)
  then show ?thesis using fr assms(3,4) by (rule from_string_canonical)
next
  case (VBigInt k)
  with assms(2) have "hex r = enc k" by (auto simp: BigNumber_from.simps(4) from_int_toString)
  then have "canonical_with is_hex_lower (hex r)" using canonical_enc [of k] by (simp add: canonical_def)
  then show ?thesis using assms(4) by (rule canonical_with_mono)
next
  case (VBytes bs)
  with assms(2) have "BigNumber_from (VString (hexlify bs)) = Inr r"
    by (simp only: BigNumber_from.simps(5))
  with hexlify_plain [of bs] have "canonical_with is_hex_lower (hex r)"
    by (rule from_string_canonical) (simp_all add: is_hex_lower_def is_digit_def)
  then show ?thesis using assms(4) by (rule canonical_with_mono)
next
  case (VObject ob)
  show ?thesis
  proof (cases "isBytes (VObject ob)")
    case True
    with assms(2) VObject have "BigNumber_from (VString (hexlify (the (elements ob)))) = Inr r"
      by (simp only: BigNumber_from.simps(6) if_True)
    with hexlify_plain [of "the (elements ob)"] have "canonical_with is_hex_lower (hex r)"
      by (rule from_string_canonical) (simp_all add: is_hex_lower_def is_digit_def)
    then show ?thesis using assms(4) by (rule canonical_with_mono)
  next
    case nb: False
    show ?thesis
    proof (cases "case field_hex ob of None \<Rightarrow> False | Some h \<Rightarrow> h \<noteq> [] \<and> isHexString h")
      case True
      with assms(2) VObject nb have fr: "BigNumber_from (VString (the (field_hex ob))) = Inr r"
        by (simp add: BigNumber_from.simps(6))
      from True assms(1) VObject nb have "plain_string P (the (field_hex ob))"
        by (simp add: plain_input_def)
      then show ?thesis using fr assms(3,4) by (rule from_string_canonical)
    next
      case False
      show ?thesis
      proof (cases "call_toHexString ob")
        case (ReturnsString s)
        with False assms(2) VObject nb have fr: "BigNumber_from (VString s) = Inr r"
          by (simp add: BigNumber_from.simps(6))
        from ReturnsString False assms(1) VObject nb have "plain_string P s"
          by (simp add: plain_input_def)
        then show ?thesis using fr assms(3,4) by (rule from_string_canonical)
      next
        case Absent
        with False assms(2) VObject nb show ?thesis by (simp add: BigNumber_from.simps(6))
      next
        case ReturnsOther
        with False assms(2) VObject nb show ?thesis by (simp add: BigNumber_from.simps(6))
      qed
    qed
  qed
qed

section \<open>Arithmetic, comparison and rendering\<close>

lemma toBN_hex_enc: "hex a = enc n \<Longrightarrow> toBN (VBigNumber a) = Inr n"
  using toBN_enc [of n] by (simp add: toBN_def BigNumber_from.simps(1) toHexString_def)






lemma lower_zero: "is_hex_lower CHR ''0''"
  by (simp add: is_hex_lower_def is_digit_def)

lemma any_zero: "is_hex_any CHR ''0''"
  by (simp add: is_hex_any_def lower_zero)


lemma eq_canonical:
  assumes "canonical (hex a)" and "canonical (hex b)"
  shows "eq a (VBigNumber b) = Inr (hex a = hex b)"
proof -
  from canonical_is_enc [OF assms(1)] obtain m where m: "hex a = enc m" ..
  from canonical_is_enc [OF assms(2)] obtain n where n: "hex b = enc n" ..
  have "(m = n) = (enc m = enc n)" by (auto dest: enc_inject)
  then show ?thesis using m n
    by (simp add: eq_def compare_def toBN_hex_enc)
qed

lemma lt_canonical:
  assumes "canonical (hex a)" and "canonical (hex b)"
  shows "\<exists>x y m n. toString a = Inr x \<and> toString b = Inr y
           \<and> BN_new x 10 = Inr m \<and> BN_new y 10 = Inr n
           \<and> lt a (VBigNumber b) = Inr (m < n)"
proof -
  from canonical_is_enc [OF assms(1)] obtain m where m: "hex a = enc m" ..
  from canonical_is_enc [OF assms(2)] obtain n where n: "hex b = enc n" ..
  have "toString a = Inr (BN_toString m 10)" "toString b = Inr (BN_toString n 10)"
    using m n by (simp_all add: toString_def toBN_hex_enc)
  moreover have "lt a (VBigNumber b) = Inr (m < n)"
    using m n by (simp add: lt_def compare_def toBN_hex_enc)
  ultimately show ?thesis using BN_new_BN_toString [of m] BN_new_BN_toString [of n] by blast
qed

lemma toString_decimal:
  assumes "match_decimal d"
  shows "\<exists>b. BigNumber_from (VString d) = Inr b
           \<and> toString b = Inr (if take 1 d = ''-'' \<and> list_all (\<lambda>c. c = CHR ''0'') (drop 1 d)
                                then ''0'' else strip_decimal d)"
proof -
  let ?r = "if take 1 d = ''-'' then drop 1 d else d"
  from decimal_value [OF assms] obtain v where
    v: "BN_new d 10 = Inr (if take 1 d = ''-'' then - int v else int v)"
       "render_digits 10 v = strip_zeros ?r"
       "v = 0 \<longleftrightarrow> list_all (\<lambda>c. c = CHR ''0'') ?r" by blast
  let ?n = "if take 1 d = ''-'' then - int v else int v"
  have f: "BigNumber_from (VString d) = Inr \<lparr>hex = enc ?n\<rparr>"
    using assms v(1) by (rule from_decimal)
  have t: "toString \<lparr>hex = enc ?n\<rparr> = Inr (BN_toString ?n 10)"
    by (simp add: toString_def toBN_hex_enc)
  have "BN_toString ?n 10 = (if take 1 d = ''-'' \<and> list_all (\<lambda>c. c = CHR ''0'') (drop 1 d)
                                then ''0'' else strip_decimal d)"
  proof (cases "take 1 d = ''-''")
    case False
    with v(2) show ?thesis by (simp add: BN_toString_def strip_decimal_def)
  next
    case True
    show ?thesis
    proof (cases "v = 0")
      case z: True
      with True v(3) show ?thesis
        by (simp add: BN_toString_def render_small digit_char_zero)
    next
      case False
      with True v(2,3) show ?thesis by (simp add: BN_toString_def strip_decimal_def)
    qed
  qed
  with f t show ?thesis by auto
qed

lemma from_object_hex:
  assumes "field_hex ob = Some h" and "isHexString h" and "drop 2 h \<noteq> []"
    and "\<not> isBytes (VObject ob)"
  shows "BigNumber_from (VObject ob) = BigNumber_from (VString h)"
    and "BigNumber_from (VObject ob) = Inr \<lparr>hex = CHR ''0'' # CHR ''x'' # normal_digits (drop 2 h)\<rparr>"
proof -
  from assms(3) have "h \<noteq> []" by auto
  with assms(1,2,4) show a: "BigNumber_from (VObject ob) = BigNumber_from (VString h)"
    by (simp add: BigNumber_from.simps(6))
  from assms(2) obtain p where h: "h = CHR ''0'' # CHR ''x'' # p"
    by (auto simp: isHexString_def take2_iff)
  with assms(3) obtain c q where p: "p = c # q" by (cases p) auto
  with h assms(2) have "is_hex_any c" by (simp add: isHexString_def)
  with h p have "match_hex h" by simp
  then have "BigNumber_from (VString h) = Inr \<lparr>hex = CHR ''0'' # CHR ''x'' # normal_digits (drop 2 h)\<rparr>"
    using h by (simp add: BigNumber_from.simps(2) toHex_0x new_BigNumber_def)
  with a show "BigNumber_from (VObject ob) = Inr \<lparr>hex = CHR ''0'' # CHR ''x'' # normal_digits (drop 2 h)\<rparr>"
    by simp
qed

lemma normal_digits_fix_iff: "(normal_digits ds = ds) = minimal_even ds"
  using normal_digits_minimal [of ds] normal_digits_fix [of ds] by auto

section \<open>Comparison up to letter case\<close>

lemma lower_char_code:
  "(of_char (lower_char c) :: nat) =
     (if 65 \<le> (of_char c :: nat) \<and> (of_char c :: nat) \<le> 90 then of_char c + 32 else of_char c)"
  by (simp add: lower_char_def)

lemma lower_digit_value: "is_hex_any c \<Longrightarrow> digit_value (lower_char c) = digit_value c"
  unfolding digit_value_def Let_def lower_char_code is_hex_any_def is_hex_lower_def is_digit_def
  by auto

lemma lower_is_hex_lower: "is_hex_any c \<Longrightarrow> is_hex_lower (lower_char c)"
  unfolding lower_char_code is_hex_any_def is_hex_lower_def is_digit_def
  by auto

lemma lower_char_zero_iff: "(lower_char c = CHR ''0'') = (c = CHR ''0'')"
proof -
  have "(lower_char c = CHR ''0'') = ((of_char (lower_char c) :: nat) = of_char CHR ''0'')"
    by (simp only: of_char_eq_iff)
  also have "\<dots> = ((of_char c :: nat) = of_char CHR ''0'')"
    by (simp add: lower_char_code)
  also have "\<dots> = (c = CHR ''0'')" by (simp only: of_char_eq_iff)
  finally show ?thesis .
qed

lemma lower_char_fixed:
  "lower_char CHR ''0'' = CHR ''0''" "lower_char CHR ''x'' = CHR ''x''"
  "lower_char CHR ''-'' = CHR ''-''"
  by (simp_all add: lower_char_def)

lemma parse_lower:
  "list_all is_hex_any ds \<Longrightarrow>
   parse_digits 16 acc (map lower_char ds) = parse_digits 16 acc ds"
  by (induction ds arbitrary: acc) (auto simp: lower_digit_value split: option.splits)

lemma lower_pair_zero: "(map lower_char xs = ''00'') = (xs = ''00'')"
  by (auto simp: map_eq_Cons_conv lower_char_zero_iff)

lemma minimal_even_lower: "minimal_even (map lower_char ds) = minimal_even ds"
  by (simp add: minimal_even_def take_map lower_pair_zero)

lemma hex_any_no_minus: "list_all is_hex_any ds \<Longrightarrow> take 1 ds \<noteq> ''-''"
proof (cases ds)
  case Nil
  then show ?thesis by simp
next
  case (Cons c cs)
  assume "list_all is_hex_any ds"
  with Cons have "is_hex_any c" by simp
  then have "c \<noteq> CHR ''-''"
    by (auto simp: is_hex_any_def is_hex_lower_def is_digit_def)
  with Cons show ?thesis by simp
qed

lemma lower_all: "list_all is_hex_any ds \<Longrightarrow> list_all is_hex_lower (map lower_char ds)"
  by (simp add: list_all_iff lower_is_hex_lower)

lemma BN_new_lower:
  assumes "list_all is_hex_any ds"
  shows "BN_new (map lower_char ds) 16 = BN_new ds 16"
    and "BN_new (CHR ''-'' # map lower_char ds) 16 = BN_new (CHR ''-'' # ds) 16"
proof -
  have a: "take 1 ds \<noteq> ''-''" using assms by (rule hex_any_no_minus)
  have "list_all is_hex_any (map lower_char ds)"
    using lower_all [OF assms] by (simp add: list_all_iff is_hex_lower_any)
  then have b: "take 1 (map lower_char ds) \<noteq> ''-''" by (rule hex_any_no_minus)
  show "BN_new (map lower_char ds) 16 = BN_new ds 16"
    using a b assms by (simp add: BN_new_def parse_lower)
  show "BN_new (CHR ''-'' # map lower_char ds) 16 = BN_new (CHR ''-'' # ds) 16"
    using assms by (simp add: BN_new_def parse_lower)
qed

lemma canonical_lower:
  assumes "canonical_with is_hex_any h"
  shows "canonical (toLowerCase h)"
    and "toBN (VBigNumber \<lparr>hex = toLowerCase h\<rparr>) = toBN (VBigNumber \<lparr>hex = h\<rparr>)"
proof -
  from assms obtain ds where ds: "minimal_even ds" "list_all is_hex_any ds"
    and h: "h = CHR ''0'' # CHR ''x'' # ds \<or> (h = CHR ''-'' # CHR ''0'' # CHR ''x'' # ds \<and> ds \<noteq> ''00'')"
    by (auto simp: canonical_with_shape)
  have m: "minimal_even (map lower_char ds)" using ds(1) by (simp add: minimal_even_lower)
  have l: "list_all is_hex_lower (map lower_char ds)" using ds(2) by (rule lower_all)
  from h show "canonical (toLowerCase h)"
  proof
    assume "h = CHR ''0'' # CHR ''x'' # ds"
    then have "toLowerCase h = CHR ''0'' # CHR ''x'' # map lower_char ds"
      by (simp add: toLowerCase_def lower_char_fixed)
    with m l show ?thesis unfolding canonical_def canonical_with_shape by blast
  next
    assume a: "h = CHR ''-'' # CHR ''0'' # CHR ''x'' # ds \<and> ds \<noteq> ''00''"
    then have "toLowerCase h = CHR ''-'' # CHR ''0'' # CHR ''x'' # map lower_char ds"
      by (simp add: toLowerCase_def lower_char_fixed)
    moreover have "map lower_char ds \<noteq> ''00''" using a by (simp add: lower_pair_zero)
    ultimately show ?thesis using m l unfolding canonical_def canonical_with_shape by blast
  qed
  from h show "toBN (VBigNumber \<lparr>hex = toLowerCase h\<rparr>) = toBN (VBigNumber \<lparr>hex = h\<rparr>)"
  proof
    assume "h = CHR ''0'' # CHR ''x'' # ds"
    then show ?thesis
      by (simp add: toBN_def BigNumber_from.simps(1) toHexString_def toLowerCase_def
                    lower_char_fixed BN_new_lower(1) [OF ds(2)])
  next
    assume "h = CHR ''-'' # CHR ''0'' # CHR ''x'' # ds \<and> ds \<noteq> ''00''"
    then show ?thesis
      by (simp add: toBN_def BigNumber_from.simps(1) toHexString_def toLowerCase_def
                    lower_char_fixed BN_new_lower(2) [OF ds(2)])
  qed
qed

lemma any_decode:
  assumes "canonical_with is_hex_any (hex a)"
  shows "\<exists>n. toLowerCase (hex a) = enc n \<and> toBN (VBigNumber a) = Inr n"
proof -
  from canonical_is_enc [OF canonical_lower(1) [OF assms]] obtain n
    where n: "toLowerCase (hex a) = enc n" ..
  have "toBN (VBigNumber a) = toBN (VBigNumber \<lparr>hex = hex a\<rparr>)"
    by (simp add: toBN_def BigNumber_from.simps(1) toHexString_def)
  also have "\<dots> = toBN (VBigNumber \<lparr>hex = toLowerCase (hex a)\<rparr>)"
    using canonical_lower(2) [OF assms] by simp
  also have "\<dots> = Inr n" by (simp add: n toBN_enc)
  finally show ?thesis using n by blast
qed

lemma eq_any:
  assumes "canonical_with is_hex_any (hex a)" and "canonical_with is_hex_any (hex b)"
  shows "eq a (VBigNumber b) = Inr (toLowerCase (hex a) = toLowerCase (hex b))"
proof -
  from any_decode [OF assms(1)] obtain m
    where m: "toLowerCase (hex a) = enc m" "toBN (VBigNumber a) = Inr m" by blast
  from any_decode [OF assms(2)] obtain n
    where n: "toLowerCase (hex b) = enc n" "toBN (VBigNumber b) = Inr n" by blast
  have "(m = n) = (enc m = enc n)" by (auto dest: enc_inject)
  then show ?thesis using m n by (simp add: eq_def compare_def)
qed

lemma lt_decoded:
  assumes "toString a = Inr x" and "toString b = Inr y"
  shows "\<exists>m n. BN_new x 10 = Inr m \<and> BN_new y 10 = Inr n \<and> lt a (VBigNumber b) = Inr (m < n)"
proof -
  from assms(1) obtain m where m: "toBN (VBigNumber a) = Inr m" "x = BN_toString m 10"
    by (auto simp: toString_def split: sum.splits)
  from assms(2) obtain n where n: "toBN (VBigNumber b) = Inr n" "y = BN_toString n 10"
    by (auto simp: toString_def split: sum.splits)
  have "lt a (VBigNumber b) = Inr (m < n)" using m(1) n(1) by (simp add: lt_def compare_def)
  then show ?thesis using m(2) n(2) BN_new_BN_toString [of m] BN_new_BN_toString [of n] by blast
qed

lemma toString_any:
  assumes "canonical_with is_hex_any (hex a)"
  shows "\<exists>x. toString a = Inr x"
  using any_decode [OF assms] by (auto simp: toString_def)

lemma lower_char_eq:
  "(lower_char c = d) =
     ((of_char d :: nat) =
        (if 65 \<le> (of_char c :: nat) \<and> (of_char c :: nat) \<le> 90 then of_char c + 32
         else of_char c))"
proof -
  have "(lower_char c = d) = ((of_char (lower_char c) :: nat) = of_char d)"
    by (simp only: of_char_eq_iff)
  also have "\<dots> = ((of_char d :: nat) =
        (if 65 \<le> (of_char c :: nat) \<and> (of_char c :: nat) \<le> 90 then of_char c + 32
         else of_char c))"
    by (simp only: lower_char_code) auto
  finally show ?thesis .
qed


section \<open>Claims\<close>

text \<open>
  C6. Idempotence of the canonical encoder: whenever \<^verbatim>\<open>toHex\<close> accepts a string, or
  encodes an engine value, normalizing its result again returns it unchanged.
\<close>

theorem C6_toHex_idempotent:
  "(toHex s = Inr w \<longrightarrow> toHex w = Inr w) \<and> (toHex_BN n = Inr w' \<longrightarrow> toHex w' = Inr w')"
  by (auto simp: toHex_BN_def dest: toHex_idem)

theorem C6_toHex_idempotent_witness:
  "toHex ''-0x0000ff'' = Inr ''-0xff'' \<and> toHex ''-0xff'' = Inr ''-0xff''
   \<and> toHex_BN 4095 = Inr ''0x0fff'' \<and> toHex ''0x0fff'' = Inr ''0x0fff''"
proof -
  have a: "toHex ''-0x0000ff'' = Inr ''-0xff''" by (simp add: eval_string)
  have b: "toHex_BN 4095 = Inr ''0x0fff''" by (simp add: toHex_BN_enc eval_enc)
  show ?thesis
    using a b C6_toHex_idempotent [of "''-0x0000ff''" "''-0xff''" 4095 "''0x0fff''"] by simp
qed

text \<open>
  C2. Every string that is neither a decimal string \<^verbatim>\<open>^-?[0-9]+$\<close> nor a hex string
  \<^verbatim>\<open>^-?0x[0-9a-f]+$\<close> (digits of either case) is to be rejected with an invalid-argument
  error. The hex pattern of the source has no anchors, unlike its decimal pattern: the
  string \<^verbatim>\<open>"zz0x1"\<close> has neither shape, contains the hex pattern, and is accepted with the
  hex string \<^verbatim>\<open>0x0zz0x1\<close>. The three inputs the claim names, \<^verbatim>\<open>"12a"\<close>, \<^verbatim>\<open>"--0x04"\<close> and
  \<^verbatim>\<open>{}\<close>, are rejected with an invalid-argument error.
\<close>

theorem C2_invalid_string_accepted:
  "\<not> match_decimal ''zz0x1'' \<and> \<not> full_hex is_hex_any ''zz0x1''
   \<and> BigNumber_from (VString ''zz0x1'') = Inr \<lparr>hex = ''0x0zz0x1''\<rparr>
   \<and> \<not> is_InvalidArgument (BigNumber_from (VString ''zz0x1''))
   \<and> is_InvalidArgument (BigNumber_from (VString ''12a''))
   \<and> is_InvalidArgument (BigNumber_from (VString ''--0x04''))
   \<and> is_InvalidArgument (BigNumber_from (VObject empty_object))"
proof -
  have a: "\<not> match_decimal ''zz0x1'' \<and> \<not> full_hex is_hex_any ''zz0x1''"
    by (simp add: match_decimal_def full_hex_def is_digit_def)
  have b: "BigNumber_from (VString ''zz0x1'') = Inr \<lparr>hex = ''0x0zz0x1''\<rparr>"
    by (simp add: eval_string toHex_bare)
  have c: "is_InvalidArgument (BigNumber_from (VString ''12a''))"
    by (simp add: eval_string is_InvalidArgument_def)
  have d: "is_InvalidArgument (BigNumber_from (VString ''--0x04''))"
    by (simp add: eval_string is_InvalidArgument_def)
  have e: "is_InvalidArgument (BigNumber_from (VObject empty_object))"
    by (simp add: BigNumber_from.simps isBytes_def empty_object_def is_InvalidArgument_def)
  show ?thesis using a b c d e by (simp add: is_InvalidArgument_def)
qed

text \<open>
  C10. A native bigint is converted through its decimal rendering and no magnitude check
  is applied: the construction succeeds for every bigint, the value it decodes to is the
  bigint itself, and \<^verbatim>\<open>isBigNumberish\<close> is true; \<^verbatim>\<open>2 ** 53 + 1\<close>, above the boundary
  for numbers, is accepted.
\<close>

theorem C10_bigint:
  "BigNumber_from (VBigInt b) = BigNumber_from (VString (int_toString b))
   \<and> (\<exists>r. BigNumber_from (VBigInt b) = Inr r)
   \<and> toBN (VBigInt b) = Inr b
   \<and> isBigNumberish (VBigInt b)
   \<and> BigNumber_from (VBigInt (2 ^ 53 + 1)) = Inr \<lparr>hex = ''0x20000000000001''\<rparr>"
proof -
  have a: "BigNumber_from (VBigInt k) = BigNumber_from (VString (int_toString k))" for k
    by (simp add: BigNumber_from.simps(4))
  have b: "BigNumber_from (VBigInt k) = Inr \<lparr>hex = enc k\<rparr>" for k
    by (simp add: a from_int_toString)
  have c: "enc (2 ^ 53 + 1) = ''0x20000000000001''"
    by (simp add: eval_enc)
  have d: "BigNumber_from (VBigInt (2 ^ 53 + 1)) = Inr \<lparr>hex = ''0x20000000000001''\<rparr>"
    using b [of "2 ^ 53 + 1"] c by simp
  have e: "\<exists>r. BigNumber_from (VBigInt b) = Inr r" using b [of b] by blast
  have f: "isBigNumberish (VBigInt b)" by (simp add: isBigNumberish_def isBigNumber_def)
  show ?thesis using a [of b] e toBN_from [OF b [of b]] f d by blast
qed

theorem C10_bigint_witness:
  "toBN (VBigInt (- (2 ^ 64))) = Inr (- (2 ^ 64)) \<and> isBigNumberish (VBigInt (- (2 ^ 64)))"
  using C10_bigint [of "- (2 ^ 64)"] by blast

text \<open>
  C4. For an integral native number \<open>n\<close>, \<^verbatim>\<open>BigNumber.from(n)\<close> fails with the overflow
  fault exactly when \<open>\<bar>n\<bar> \<ge> 2\<^sup>5\<^sup>3 - 1\<close>, and succeeds otherwise; \<^verbatim>\<open>from(2 ** 53)\<close> fails
  with overflow and \<^verbatim>\<open>from(2 ** 53 - 2)\<close> succeeds.
\<close>

theorem C4_overflow_boundary:
  "(BigNumber_from (VNumber (Finite (of_int n))) = Inl (NumericFault ''overflow'' ''BigNumber.from'')
      \<longleftrightarrow> 2 ^ 53 - 1 \<le> \<bar>n\<bar>)
   \<and> (\<bar>n\<bar> < 2 ^ 53 - 1 \<longrightarrow> (\<exists>r. BigNumber_from (VNumber (Finite (of_int n))) = Inr r))
   \<and> BigNumber_from (VNumber (Finite (2 ^ 53))) = Inl (NumericFault ''overflow'' ''BigNumber.from'')
   \<and> BigNumber_from (VNumber (Finite (2 ^ 53 - 2))) = Inr \<lparr>hex = ''0x1ffffffffffffe''\<rparr>"
proof -
  have a: "BigNumber_from (VNumber (Finite (2 ^ 53))) = Inl (NumericFault ''overflow'' ''BigNumber.from'')"
    using from_number [of "2 ^ 53"] by simp
  have "enc (2 ^ 53 - 2) = ''0x1ffffffffffffe''" by (simp add: eval_enc)
  then have b: "BigNumber_from (VNumber (Finite (2 ^ 53 - 2))) = Inr \<lparr>hex = ''0x1ffffffffffffe''\<rparr>"
    using from_number [of "2 ^ 53 - 2"] by simp
  show ?thesis using a b by (simp add: from_number)
qed

theorem C4_overflow_boundary_witness:
  "\<bar>9007199254740990 :: int\<bar> < 2 ^ 53 - 1
   \<and> (\<exists>r. BigNumber_from (VNumber (Finite (of_int 9007199254740990))) = Inr r)
   \<and> BigNumber_from (VNumber (Finite (of_int 9007199254740990)))
       \<noteq> Inl (NumericFault ''overflow'' ''BigNumber.from'')"
proof -
  have h: "\<bar>9007199254740990 :: int\<bar> < 2 ^ 53 - 1" by simp
  show ?thesis using h C4_overflow_boundary [of 9007199254740990] by auto
qed

text \<open>
  C8. \<^verbatim>\<open>a.div(b)\<close> fails with the fault \<^verbatim>\<open>division by zero\<close> of operation \<^verbatim>\<open>div\<close>
  exactly when the divisor decodes to the integer zero. The failure does not depend on
  the engine's division nor on the dividend, so it is raised before the division is
  delegated. \<^verbatim>\<open>from(1).div(from(0))\<close> fails this way.
\<close>

theorem C8_division_by_zero:
  "(div_BigNumber bn_div a b = Inl (NumericFault ''division by zero'' ''div'') \<longleftrightarrow> toBN b = Inr 0)
   \<and> (toBN b = Inr 0 \<longrightarrow>
        (\<forall>f a'. div_BigNumber f a' b = Inl (NumericFault ''division by zero'' ''div'')))
   \<and> BigNumber_from (VNumber (Finite 1)) = Inr \<lparr>hex = ''0x01''\<rparr>
   \<and> BigNumber_from (VNumber (Finite 0)) = Inr \<lparr>hex = ''0x00''\<rparr>
   \<and> div_BigNumber bn_div \<lparr>hex = ''0x01''\<rparr> (VBigNumber \<lparr>hex = ''0x00''\<rparr>)
       = Inl (NumericFault ''division by zero'' ''div'')"
proof -
  have e0: "enc 0 = ''0x00''" and e1: "enc 1 = ''0x01''" by (simp_all add: eval_enc)
  have one: "BigNumber_from (VNumber (Finite 1)) = Inr \<lparr>hex = ''0x01''\<rparr>"
    using from_number [of 1] e1 by simp
  have zero: "BigNumber_from (VNumber (Finite 0)) = Inr \<lparr>hex = ''0x00''\<rparr>"
    using from_number [of 0] e0 by simp
  have "toBN (VBigNumber \<lparr>hex = ''0x00''\<rparr>) = Inr 0" using toBN_enc [of 0] e0 by simp
  then show ?thesis using one zero by (simp add: div_fault_iff)
qed

theorem C8_division_by_zero_witness:
  "toBN (VString ''-000'') = Inr 0
   \<and> div_BigNumber (\<lambda>x y. Some (x div y)) \<lparr>hex = ''0x2a''\<rparr> (VString ''-000'')
       = Inl (NumericFault ''division by zero'' ''div'')"
proof -
  have "match_decimal ''-000'' \<and> BN_new ''-000'' 10 = Inr 0"
    by (simp add: match_decimal_def is_digit_def BN_new_def digit_value_def)
  then have "BigNumber_from (VString ''-000'') = Inr \<lparr>hex = enc 0\<rparr>" by (simp add: from_decimal)
  then have h: "toBN (VString ''-000'') = Inr 0" by (rule toBN_from)
  show ?thesis
    using h C8_division_by_zero [of "\<lambda>x y. Some (x div y)" "\<lparr>hex = ''0x2a''\<rparr>" "VString ''-000''"]
    by blast
qed

text \<open>
  C7. \<^verbatim>\<open>"0"\<close>, \<^verbatim>\<open>"-0"\<close>, \<^verbatim>\<open>"0x0"\<close> and \<^verbatim>\<open>"0x00"\<close> all yield \<^verbatim>\<open>0x00\<close>, and no
  accepted input yields \<^verbatim>\<open>-0x00\<close>. An input that is already a \<^verbatim>\<open>BigNumber\<close> is returned
  as it is; such an instance exists only as the result of an earlier construction.
\<close>

theorem C7_zero_canonical:
  "BigNumber_from (VString ''0'') = Inr \<lparr>hex = ''0x00''\<rparr>
   \<and> BigNumber_from (VString ''-0'') = Inr \<lparr>hex = ''0x00''\<rparr>
   \<and> BigNumber_from (VString ''0x0'') = Inr \<lparr>hex = ''0x00''\<rparr>
   \<and> BigNumber_from (VString ''0x00'') = Inr \<lparr>hex = ''0x00''\<rparr>
   \<and> (BigNumber_from v = Inr r \<and> (\<forall>b'. v = VBigNumber b' \<longrightarrow> constructed b')
        \<longrightarrow> hex r \<noteq> ''-0x00'')"
proof -
  have e0: "enc 0 = ''0x00''" by (simp add: eval_enc)
  have d: "BigNumber_from (VString ''0'') = Inr \<lparr>hex = ''0x00''\<rparr>"
    using from_decimal [of "''0''" 0] e0
    by (simp add: match_decimal_def is_digit_def BN_new_def digit_value_def)
  have d': "BigNumber_from (VString ''-0'') = Inr \<lparr>hex = ''0x00''\<rparr>"
    using from_decimal [of "''-0''" 0] e0
    by (simp add: match_decimal_def is_digit_def BN_new_def digit_value_def)
  have h: "BigNumber_from (VString ''0x0'') = Inr \<lparr>hex = ''0x00''\<rparr>"
    by (simp add: eval_string)
  have h': "BigNumber_from (VString ''0x00'') = Inr \<lparr>hex = ''0x00''\<rparr>"
    by (simp add: eval_string)
  have c: "hex x \<noteq> ''-0x00''" if "constructed x" for x
    using that by cases (rule from_not_negative_zero)
  have "hex r \<noteq> ''-0x00''"
    if "BigNumber_from v = Inr r" and "\<forall>b'. v = VBigNumber b' \<longrightarrow> constructed b'"
  proof (cases "\<exists>b'. v = VBigNumber b'")
    case True
    then obtain b' where "v = VBigNumber b'" by blast
    with that have "constructed r" by (simp add: BigNumber_from.simps(1))
    then show ?thesis by (rule c)
  next
    case False
    then show ?thesis using that(1) by (intro from_not_negative_zero) auto
  qed
  with d d' h h' show ?thesis by blast
qed

theorem C7_zero_canonical_witness:
  "BigNumber_from (VString ''-0x0000'') = Inr \<lparr>hex = ''0x00''\<rparr>
   \<and> hex \<lparr>hex = ''0x00''\<rparr> \<noteq> ''-0x00''"
proof -
  have h: "BigNumber_from (VString ''-0x0000'') = Inr \<lparr>hex = ''0x00''\<rparr>"
    by (simp add: eval_string)
  have g: "\<forall>b'. VString ''-0x0000'' = VBigNumber b' \<longrightarrow> constructed b'" by simp
  show ?thesis
    using h g C7_zero_canonical [of "VString ''-0x0000''" "\<lparr>hex = ''0x00''\<rparr>"] by blast
qed

text \<open>
  C5. Decimal round trip. The claim as written, that \<^verbatim>\<open>from(d).toString()\<close> is \<open>d\<close> with its
  superfluous leading zeros removed, fails for \<^verbatim>\<open>"-0"\<close>: the value is zero and is rendered
  \<^verbatim>\<open>"0"\<close>, without the sign.
\<close>

theorem C5_decimal_round_trip_counterexample:
  "match_decimal ''-0''
   \<and> BigNumber_from (VString ''-0'') = Inr \<lparr>hex = ''0x00''\<rparr>
   \<and> toString \<lparr>hex = ''0x00''\<rparr> = Inr ''0''
   \<and> strip_decimal ''-0'' = ''-0''
   \<and> toString \<lparr>hex = ''0x00''\<rparr> \<noteq> Inr (strip_decimal ''-0'')"
proof -
  have e0: "enc 0 = ''0x00''" by (simp add: eval_enc)
  have m: "match_decimal ''-0''" by (simp add: match_decimal_def is_digit_def)
  have f: "BigNumber_from (VString ''-0'') = Inr \<lparr>hex = ''0x00''\<rparr>"
    using from_decimal [of "''-0''" 0] e0
    by (simp add: match_decimal_def is_digit_def BN_new_def digit_value_def)
  have t: "toString \<lparr>hex = ''0x00''\<rparr> = Inr ''0''"
    using toBN_enc [of 0] e0
    by (simp add: toString_def BN_toString_def render_small digit_char_zero)
  have s: "strip_decimal ''-0'' = ''-0''" by (simp add: strip_decimal_def strip_zeros_def)
  show ?thesis using m f t s by simp
qed

text \<open>
  C5, amended. For every string \<open>d\<close> matching \<^verbatim>\<open>-?[0-9]+\<close>, \<^verbatim>\<open>from(d)\<close> succeeds and
  \<^verbatim>\<open>from(d).toString()\<close> is \<open>d\<close> with its superfluous leading zeros removed, except that
  the minus sign is dropped as well when all digits of \<open>d\<close> are zero.
\<close>

theorem C5_decimal_round_trip:
  "match_decimal d \<longrightarrow>
     (\<exists>b. BigNumber_from (VString d) = Inr b
        \<and> toString b = Inr (if take 1 d = ''-'' \<and> list_all (\<lambda>c. c = CHR ''0'') (drop 1 d)
                             then ''0'' else strip_decimal d))"
  using toString_decimal [of d] by blast

theorem C5_decimal_round_trip_witness:
  "match_decimal ''-0042''
   \<and> (\<exists>b. BigNumber_from (VString ''-0042'') = Inr b \<and> toString b = Inr ''-42'')"
proof -
  have m: "match_decimal ''-0042''" by (simp add: match_decimal_def is_digit_def)
  have s: "strip_decimal ''-0042'' = ''-42''" by (simp add: strip_decimal_def strip_zeros_def)
  show ?thesis using m s C5_decimal_round_trip [of "''-0042''"] by simp
qed

text \<open>
  C9. An object with a field \<^verbatim>\<open>_hex\<close>. The claim as written, that the field is used as it
  is, fails for \<^verbatim>\<open>{ _hex: "0x0" }\<close>: the field goes through \<^verbatim>\<open>BigNumber.from\<close> as a string
  and is normalized to \<^verbatim>\<open>0x00\<close>.
\<close>

theorem C9_hex_field_counterexample:
  "isHexString ''0x0''
   \<and> \<not> isBytes (VObject \<lparr>elements = None, field_hex = Some ''0x0'',
                              call_toHexString = Absent, field_isBigNumber = False\<rparr>)
   \<and> BigNumber_from (VObject \<lparr>elements = None, field_hex = Some ''0x0'',
                               call_toHexString = Absent, field_isBigNumber = False\<rparr>)
       = Inr \<lparr>hex = ''0x00''\<rparr>
   \<and> toHexString \<lparr>hex = ''0x00''\<rparr> \<noteq> ''0x0''"
  by (simp add: isHexString_def isBytes_def toHexString_def eval_string)

text \<open>
  C9, amended. For an object that is not a \<^verbatim>\<open>BigNumber\<close> and not a byte sequence, and whose
  field \<^verbatim>\<open>_hex\<close> is a valid hex string with at least one digit, \<^verbatim>\<open>from(v)\<close> succeeds and
  equals \<^verbatim>\<open>from(v._hex)\<close>: the digits are padded to an even count and leading \<^verbatim>\<open>00\<close> pairs
  are removed, so \<^verbatim>\<open>from(v).toHexString()\<close> equals \<^verbatim>\<open>v._hex\<close> exactly when the digits of
  \<^verbatim>\<open>v._hex\<close> are already even in number and minimal. An object that is a byte sequence is
  converted from its bytes, whatever its field \<^verbatim>\<open>_hex\<close> holds, since \<^verbatim>\<open>isBytes\<close> is tested
  first.
\<close>

theorem C9_hex_field:
  "(\<not> isBytes (VObject ob) \<and> field_hex ob = Some h \<and> isHexString h \<and> drop 2 h \<noteq> [] \<longrightarrow>
     BigNumber_from (VObject ob) = BigNumber_from (VString h)
     \<and> (\<exists>r. BigNumber_from (VObject ob) = Inr r
           \<and> toHexString r = CHR ''0'' # CHR ''x'' # normal_digits (drop 2 h)
           \<and> (toHexString r = h \<longleftrightarrow> minimal_even (drop 2 h))))
   \<and> (elements ob = Some bs \<longrightarrow> BigNumber_from (VObject ob) = BigNumber_from (VBytes bs))"
proof (intro conjI impI)
  assume a: "\<not> isBytes (VObject ob) \<and> field_hex ob = Some h \<and> isHexString h \<and> drop 2 h \<noteq> []"
  then have a0: "\<not> isBytes (VObject ob)" and a1: "field_hex ob = Some h"
    and a2: "isHexString h" and a3: "drop 2 h \<noteq> []"
    by blast+
  show 1: "BigNumber_from (VObject ob) = BigNumber_from (VString h)"
    using a1 a2 a3 a0 by (rule from_object_hex(1))
  have 2: "BigNumber_from (VObject ob) = Inr \<lparr>hex = CHR ''0'' # CHR ''x'' # normal_digits (drop 2 h)\<rparr>"
    using a1 a2 a3 a0 by (rule from_object_hex(2))
  from a2 obtain p where h: "h = CHR ''0'' # CHR ''x'' # p"
    by (auto simp: isHexString_def take2_iff)
  let ?r = "\<lparr>hex = CHR ''0'' # CHR ''x'' # normal_digits (drop 2 h)\<rparr>"
  have 3: "toHexString ?r = CHR ''0'' # CHR ''x'' # normal_digits (drop 2 h)"
    by (simp add: toHexString_def)
  have 4: "(toHexString ?r = h) = minimal_even (drop 2 h)"
    using h normal_digits_fix_iff [of p] by (simp add: toHexString_def)
  from 2 3 4 show "\<exists>r. BigNumber_from (VObject ob) = Inr r
           \<and> toHexString r = CHR ''0'' # CHR ''x'' # normal_digits (drop 2 h)
           \<and> (toHexString r = h \<longleftrightarrow> minimal_even (drop 2 h))"
    by blast
next
  assume "elements ob = Some bs"
  then show "BigNumber_from (VObject ob) = BigNumber_from (VBytes bs)"
    by (simp add: BigNumber_from.simps(5,6) isBytes_def)
qed

theorem C9_hex_field_witness:
  "\<not> isBytes (VObject \<lparr>elements = None, field_hex = Some ''0x0aBc'',
                           call_toHexString = Absent, field_isBigNumber = False\<rparr>)
   \<and> isHexString ''0x0aBc'' \<and> drop 2 ''0x0aBc'' \<noteq> [] \<and> minimal_even (drop 2 ''0x0aBc'')
   \<and> (\<exists>r. BigNumber_from (VObject \<lparr>elements = None, field_hex = Some ''0x0aBc'',
                                     call_toHexString = Absent, field_isBigNumber = False\<rparr>)
              = Inr r
          \<and> toHexString r = ''0x0aBc'')
   \<and> BigNumber_from (VObject \<lparr>elements = Some [1, 2], field_hex = Some ''0x05'',
                               call_toHexString = Absent, field_isBigNumber = False\<rparr>)
       = BigNumber_from (VBytes [1, 2])"
proof -
  have h: "isHexString ''0x0aBc''"
    by (simp add: isHexString_def is_hex_any_def is_hex_lower_def is_digit_def)
  have m: "minimal_even (drop 2 ''0x0aBc'')" by (simp add: minimal_even_def)
  let ?ob = "\<lparr>elements = None, field_hex = Some ''0x0aBc'', call_toHexString = Absent,
              field_isBigNumber = False\<rparr>"
  let ?arr = "\<lparr>elements = Some [1, 2 :: 8 word], field_hex = Some ''0x05'',
               call_toHexString = Absent, field_isBigNumber = False\<rparr>"
  have nb: "\<not> isBytes (VObject ?ob)" by (simp add: isBytes_def)
  have hyp: "\<not> isBytes (VObject ?ob) \<and> field_hex ?ob = Some ''0x0aBc''
             \<and> isHexString ''0x0aBc'' \<and> drop 2 ''0x0aBc'' \<noteq> []"
    using h nb by simp
  from C9_hex_field [of ?ob "''0x0aBc''"] hyp obtain r where
    r: "BigNumber_from (VObject ?ob) = Inr r"
       "toHexString r = ''0x0aBc'' \<longleftrightarrow> minimal_even (drop 2 ''0x0aBc'')"
    by blast
  from r(2) m have t: "toHexString r = ''0x0aBc''" by blast
  have e: "elements ?arr = Some [1, 2]" by simp
  have b: "BigNumber_from (VObject ?arr) = BigNumber_from (VBytes [1, 2])"
    using C9_hex_field [of ?arr _ "[1, 2]"] e by blast
  from r(1) t hyp m b show ?thesis by blast
qed

text \<open>
  C3. Comparison. The claim as written fails for the values made from \<^verbatim>\<open>"0xFF"\<close> and
  \<^verbatim>\<open>"0xff"\<close>: they compare equal and their hex strings differ, since the case of the digits
  of a hex string is kept.
\<close>

theorem C3_comparison_counterexample:
  "BigNumber_from (VString ''0xFF'') = Inr \<lparr>hex = ''0xFF''\<rparr>
   \<and> BigNumber_from (VString ''0xff'') = Inr \<lparr>hex = ''0xff''\<rparr>
   \<and> eq \<lparr>hex = ''0xFF''\<rparr> (VBigNumber \<lparr>hex = ''0xff''\<rparr>) = Inr True
   \<and> toHexString \<lparr>hex = ''0xFF''\<rparr> \<noteq> toHexString \<lparr>hex = ''0xff''\<rparr>"
proof -
  have a: "BigNumber_from (VString ''0xFF'') = Inr \<lparr>hex = ''0xFF''\<rparr>" by (simp add: eval_string)
  have b: "BigNumber_from (VString ''0xff'') = Inr \<lparr>hex = ''0xff''\<rparr>" by (simp add: eval_string)
  have c: "toBN (VBigNumber \<lparr>hex = ''0xFF''\<rparr>) = Inr 255"
    by (simp add: toBN_def BigNumber_from.simps(1) toHexString_def BN_new_def digit_value_def)
  have d: "toBN (VBigNumber \<lparr>hex = ''0xff''\<rparr>) = Inr 255"
    by (simp add: toBN_def BigNumber_from.simps(1) toHexString_def BN_new_def digit_value_def)
  show ?thesis using a b c d by (simp add: eq_def compare_def toHexString_def)
qed

text \<open>
  C3, amended. For values \<open>a\<close> and \<open>b\<close> made by \<^verbatim>\<open>BigNumber.from\<close> from inputs whose hex
  strings, if they supply any, are matched in full by \<^verbatim>\<open>-?0x[0-9a-f]+\<close> with digits of
  either case, \<^verbatim>\<open>a.eq(b)\<close> is true exactly when their hex strings are equal up to the case
  of the letters, hence exactly when they are equal as strings if both are in lowercase;
  and \<^verbatim>\<open>a.lt(b)\<close> is the order of the integers their decimal renderings denote, as it is
  for every pair of values that have decimal renderings.
\<close>

theorem C3_comparison:
  "(canonical_with is_hex_any (hex a) \<and> canonical_with is_hex_any (hex b) \<longrightarrow>
      eq a (VBigNumber b) = Inr (toLowerCase (toHexString a) = toLowerCase (toHexString b))
      \<and> (\<exists>x y m n. toString a = Inr x \<and> toString b = Inr y
            \<and> BN_new x 10 = Inr m \<and> BN_new y 10 = Inr n
            \<and> lt a (VBigNumber b) = Inr (m < n)))
   \<and> (canonical (hex a) \<and> canonical (hex b) \<longrightarrow>
        eq a (VBigNumber b) = Inr (toHexString a = toHexString b))
   \<and> (toString a = Inr x \<and> toString b = Inr y \<longrightarrow>
        (\<exists>m n. BN_new x 10 = Inr m \<and> BN_new y 10 = Inr n
           \<and> lt a (VBigNumber b) = Inr (m < n)))
   \<and> (plain_input is_hex_any u \<and> BigNumber_from u = Inr a
        \<longrightarrow> canonical_with is_hex_any (hex a))
   \<and> (plain_input is_hex_lower u \<and> BigNumber_from u = Inr a \<longrightarrow> canonical (hex a))"
proof -
  have 1: "eq a (VBigNumber b) = Inr (toLowerCase (toHexString a) = toLowerCase (toHexString b))"
    if "canonical_with is_hex_any (hex a)" and "canonical_with is_hex_any (hex b)"
    using eq_any [OF that] by (simp add: toHexString_def)
  have 2: "\<exists>x y m n. toString a = Inr x \<and> toString b = Inr y
            \<and> BN_new x 10 = Inr m \<and> BN_new y 10 = Inr n
            \<and> lt a (VBigNumber b) = Inr (m < n)"
    if "canonical_with is_hex_any (hex a)" and "canonical_with is_hex_any (hex b)"
  proof -
    from toString_any [OF that(1)] obtain x where x: "toString a = Inr x" ..
    from toString_any [OF that(2)] obtain y where y: "toString b = Inr y" ..
    from lt_decoded [OF x y] x y show ?thesis by blast
  qed
  have 3: "eq a (VBigNumber b) = Inr (toHexString a = toHexString b)"
    if "canonical (hex a)" and "canonical (hex b)"
    using eq_canonical [OF that] by (simp add: toHexString_def)
  have 4: "\<exists>m n. BN_new x 10 = Inr m \<and> BN_new y 10 = Inr n
           \<and> lt a (VBigNumber b) = Inr (m < n)"
    if "toString a = Inr x" and "toString b = Inr y"
    using that by (rule lt_decoded)
  have 5: "canonical_with is_hex_any (hex a)"
    if "plain_input is_hex_any u" and "BigNumber_from u = Inr a"
    using that by (rule from_canonical) (simp_all add: any_zero is_hex_lower_any)
  have 6: "canonical (hex a)" if "plain_input is_hex_lower u" and "BigNumber_from u = Inr a"
    unfolding canonical_def using that by (rule from_canonical) (simp_all add: lower_zero)
  show ?thesis using 1 2 3 4 5 6 by blast
qed

theorem C3_comparison_witness:
  "canonical_with is_hex_any (hex \<lparr>hex = ''0xFF''\<rparr>)
   \<and> canonical_with is_hex_any (hex \<lparr>hex = ''0x0100''\<rparr>)
   \<and> eq \<lparr>hex = ''0xFF''\<rparr> (VBigNumber \<lparr>hex = ''0x0100''\<rparr>) = Inr False
   \<and> toString \<lparr>hex = ''0xFF''\<rparr> = Inr ''255''
   \<and> toString \<lparr>hex = ''0x0100''\<rparr> = Inr ''256''
   \<and> lt \<lparr>hex = ''0xFF''\<rparr> (VBigNumber \<lparr>hex = ''0x0100''\<rparr>) = Inr True"
proof -
  let ?a = "\<lparr>hex = ''0xFF''\<rparr>" and ?b = "\<lparr>hex = ''0x0100''\<rparr>"
  have ca: "canonical_with is_hex_any (hex ?a)"
    by (simp add: canonical_with_def minimal_even_def is_hex_any_def is_hex_lower_def is_digit_def)
  have cb: "canonical_with is_hex_any (hex ?b)"
    by (simp add: canonical_with_def minimal_even_def is_hex_any_def is_hex_lower_def is_digit_def)
  have l: "(toLowerCase (toHexString ?a) = toLowerCase (toHexString ?b)) = False"
    by (simp add: toLowerCase_def toHexString_def lower_char_eq lower_char_code)
  have ta: "toString ?a = Inr ''255''"
    by (simp add: toString_def toBN_def BigNumber_from.simps(1) toHexString_def BN_new_def
                  digit_value_def BN_toString_def render_digits.simps digit_char_eq)
  have tb: "toString ?b = Inr ''256''"
    by (simp add: toString_def toBN_def BigNumber_from.simps(1) toHexString_def BN_new_def
                  digit_value_def BN_toString_def render_digits.simps digit_char_eq)
  have na: "BN_new ''255'' 10 = Inr 255" and nb: "BN_new ''256'' 10 = Inr 256"
    by (simp_all add: BN_new_def digit_value_def)
  note t = C3_comparison [of ?a ?b "''255''" "''256''" "VBigNumber ?a"]
  from t ca cb l have e: "eq ?a (VBigNumber ?b) = Inr False" by simp
  from t ta tb obtain m n where
    "BN_new ''255'' 10 = Inr m" "BN_new ''256'' 10 = Inr n" "lt ?a (VBigNumber ?b) = Inr (m < n)"
    by blast
  with na nb have "lt ?a (VBigNumber ?b) = Inr True" by simp
  with ca cb e ta tb show ?thesis by (intro conjI)
qed




end
